theory Spec2Isabelle
  imports Main
begin

section \<open>Strings\<close>

text \<open>
  The builder works on the unicode strings that minidom hands out. They are modelled as
  \<^typ>\<open>string\<close>, one \<^typ>\<open>char\<close> per code point, so the model covers code points up
  to 255. \<open>isspace\<close> is the set that \<open>unicode.strip()\<close> removes in that range and
  \<open>lower\<close> is \<open>unicode.lower()\<close> there.
\<close>

definition isspace :: "char \<Rightarrow> bool" where
  "isspace c =
     (let n = (of_char c :: nat)
      in (9 \<le> n \<and> n \<le> 13) \<or> (28 \<le> n \<and> n \<le> 32) \<or> n = 133 \<or> n = 160)"

definition lstrip :: "string \<Rightarrow> string" where
  "lstrip s = dropWhile isspace s"

definition rstrip :: "string \<Rightarrow> string" where
  "rstrip s = rev (dropWhile isspace (rev s))"

definition strip :: "string \<Rightarrow> string" where
  "strip s = rstrip (lstrip s)"

definition lower_char :: "char \<Rightarrow> char" where
  "lower_char c =
     (let n = (of_char c :: nat)
      in if (65 \<le> n \<and> n \<le> 90) \<or> (192 \<le> n \<and> n \<le> 222 \<and> n \<noteq> 215)
         then char_of (n + 32) else c)"

definition lower :: "string \<Rightarrow> string" where
  "lower s = map lower_char s"

definition startswith :: "string \<Rightarrow> string \<Rightarrow> bool" where
  "startswith s p = (take (length p) s = p)"

text \<open>\<open>s.split(sep, 1)\<close> for a separator that occurs in \<open>s\<close>: the parts before and
  after its first occurrence.\<close>

definition split_left :: "char \<Rightarrow> string \<Rightarrow> string" where
  "split_left sep s = takeWhile (\<lambda>c. c \<noteq> sep) s"

definition split_right :: "char \<Rightarrow> string \<Rightarrow> string" where
  "split_right sep s = tl (dropWhile (\<lambda>c. c \<noteq> sep) s)"

section \<open>The flag set and the condition evaluator\<close>

text \<open>\<open>UIBuilder.enable_condition\<close>: every name is added to the set as it is given.\<close>

definition enable_condition :: "string set \<Rightarrow> string list \<Rightarrow> string set" where
  "enable_condition conditions conds = fold (\<lambda>c s. insert c s) conds conditions"

text \<open>
  \<open>UIBuilder.condition_met\<close>. The two \<open>for sub in cond.split(sep, 1)\<close> loops run over
  exactly two parts and return at the first part that decides the result.
\<close>

function condition_met :: "string set \<Rightarrow> string \<Rightarrow> bool" where
  "condition_met conditions cond =
     (if CHR ''|'' \<in> set cond then
        (if condition_met conditions (split_left CHR ''|'' cond) then True
         else if condition_met conditions (split_right CHR ''|'' cond) then True
         else False)
      else if CHR ''&'' \<in> set cond then
        (if \<not> condition_met conditions (split_left CHR ''&'' cond) then False
         else if \<not> condition_met conditions (split_right CHR ''&'' cond) then False
         else True)
      else if startswith (strip cond) ''!'' then
        \<not> condition_met conditions (tl (strip cond))
      else strip cond \<in> conditions)"
  by pat_completeness auto

lemma split_left_shorter: "sep \<in> set s \<Longrightarrow> length (split_left sep s) < length s"
  unfolding split_left_def
  by (induction s) auto

lemma split_right_shorter: "sep \<in> set s \<Longrightarrow> length (split_right sep s) < length s"
  unfolding split_right_def
  by (induction s) (auto simp: less_Suc_eq_le length_dropWhile_le)

lemma length_strip_le: "length (strip s) \<le> length s"
proof -
  have "length (strip s) \<le> length (dropWhile isspace s)"
    unfolding strip_def lstrip_def rstrip_def
    using length_dropWhile_le [of isspace "rev (dropWhile isspace s)"] by simp
  also have "\<dots> \<le> length s"
    by (rule length_dropWhile_le)
  finally show ?thesis .
qed

lemma tl_strip_shorter:
  assumes "startswith (strip s) ''!''"
  shows "length (strip s) - Suc 0 < length s"
proof -
  from assms have "strip s \<noteq> []"
    by (auto simp: startswith_def)
  then have "length (strip s) - Suc 0 < length (strip s)"
    by (cases "strip s") auto
  with length_strip_le [of s] show ?thesis by simp
qed

termination condition_met
  by (relation "measure (\<lambda>(conditions, cond). length cond)")
     (auto simp: split_left_shorter split_right_shorter tl_strip_shorter)

declare condition_met.simps [simp del]

text \<open>
  The same evaluator with a record of the run: the second component lists, in order, the
  names whose membership in the flag set was tested. A part of the expression that is
  never evaluated leaves no entry.
\<close>

function condition_met_trace :: "string set \<Rightarrow> string \<Rightarrow> bool \<times> string list" where
  "condition_met_trace conditions cond =
     (if CHR ''|'' \<in> set cond then
        (case condition_met_trace conditions (split_left CHR ''|'' cond) of
           (r1, t1) \<Rightarrow>
             if r1 then (True, t1)
             else (case condition_met_trace conditions (split_right CHR ''|'' cond) of
                     (r2, t2) \<Rightarrow> if r2 then (True, t1 @ t2) else (False, t1 @ t2)))
      else if CHR ''&'' \<in> set cond then
        (case condition_met_trace conditions (split_left CHR ''&'' cond) of
           (r1, t1) \<Rightarrow>
             if \<not> r1 then (False, t1)
             else (case condition_met_trace conditions (split_right CHR ''&'' cond) of
                     (r2, t2) \<Rightarrow> if \<not> r2 then (False, t1 @ t2) else (True, t1 @ t2)))
      else if startswith (strip cond) ''!'' then
        (case condition_met_trace conditions (tl (strip cond)) of
           (r, t) \<Rightarrow> (\<not> r, t))
      else (strip cond \<in> conditions, [strip cond]))"
  by pat_completeness auto

termination
  by (relation "measure (\<lambda>(conditions, cond). length cond)")
     (auto simp: split_left_shorter split_right_shorter tl_strip_shorter)

declare condition_met_trace.simps [simp del]

section \<open>The document tree\<close>

text \<open>
  A minidom node is an element (tag name, attributes in document order, child nodes), a
  text node, or any other node (a comment, say), which the builder only ever skips.
  \<open>cloneNode(True)\<close> is the identity on these values.
\<close>

datatype node =
    Element (tagName: string) (attributes: "(string \<times> string) list") (childNodes: "node list")
  | Text (data: string)
  | Comment string

text \<open>\<open>getAttribute\<close> returns the empty string for an attribute that is not there.\<close>

definition getAttribute :: "(string \<times> string) list \<Rightarrow> string \<Rightarrow> string" where
  "getAttribute attrs name = (case map_of attrs name of Some v \<Rightarrow> v | None \<Rightarrow> [])"

definition removeAttribute :: "(string \<times> string) list \<Rightarrow> string \<Rightarrow> (string \<times> string) list" where
  "removeAttribute attrs name = filter (\<lambda>kv. fst kv \<noteq> name) attrs"

text \<open>\<open>removeChild\<close> and \<open>insertBefore\<close> on a child list, by position.\<close>

definition remove_nth :: "nat \<Rightarrow> 'a list \<Rightarrow> 'a list" where
  "remove_nth i xs = take i xs @ drop (Suc i) xs"

definition insert_nth :: "nat \<Rightarrow> 'a \<Rightarrow> 'a list \<Rightarrow> 'a list" where
  "insert_nth i x xs = take i xs @ x # drop i xs"

text \<open>The number of nodes of a subtree, and of a list of subtrees.\<close>

fun nsize :: "node \<Rightarrow> nat" where
  "nsize (Element t a ks) = Suc (sum_list (map nsize ks))"
| "nsize (Text d) = 1"
| "nsize (Comment d) = 1"

definition nsizes :: "node list \<Rightarrow> nat" where
  "nsizes xs = sum_list (map nsize xs)"

section \<open>Tree utilities\<close>

definition hasTagCI :: "string \<Rightarrow> node \<Rightarrow> bool" where
  "hasTagCI tagname child =
     (case child of Element t a ks \<Rightarrow> lower t = tagname | _ \<Rightarrow> False)"

text \<open>\<open>getElementsByTagNameCI(node, tagname)\<close>, on \<open>node.childNodes\<close>: a fresh list.\<close>

definition getElementsByTagNameCI :: "node list \<Rightarrow> string \<Rightarrow> node list" where
  "getElementsByTagNameCI children tagname = filter (hasTagCI (lower tagname)) children"

text \<open>
  The loop of \<open>merge_with_parent(element, insert_before)\<close>. It iterates over the live list
  \<open>element.childNodes\<close> by position \<open>i\<close> while \<open>removeChild\<close> shortens that list.
  \<open>siblings\<close> is \<open>insert_before.parentNode.childNodes\<close> and \<open>p\<close> the position of
  \<open>insert_before\<close> in it: \<open>appendChild\<close> followed by \<open>insertBefore\<close> leaves the child
  right before \<open>insert_before\<close>, which moves one place up.
\<close>

function merge_with_parent_loop ::
  "node list \<Rightarrow> nat \<Rightarrow> node list \<Rightarrow> nat \<Rightarrow> node list \<times> node list \<times> nat" where
  "merge_with_parent_loop children i siblings p =
     (if i < length children then
        (case children ! i of
           Element t a ks \<Rightarrow>
             merge_with_parent_loop (remove_nth i children) (Suc i)
               (insert_nth p (children ! i) siblings) (Suc p)
         | _ \<Rightarrow> merge_with_parent_loop children (Suc i) siblings p)
      else (children, siblings, p))"
  by pat_completeness auto

termination
  by (relation "measure (\<lambda>(children, i, siblings, p). length children - i)")
     (auto simp: remove_nth_def)

text \<open>
  \<open>merge_with_parent\<close> up to its last statement: what is left in \<open>element\<close>, the
  sibling list with the moved children, and the new position of \<open>insert_before\<close>. The
  last statement, \<open>element.parentNode.removeChild(element)\<close>, is written at the two call
  sites, where the parent of \<open>element\<close> is known.
\<close>

definition merge_with_parent ::
  "node list \<Rightarrow> node list \<Rightarrow> nat \<Rightarrow> node list \<times> node list \<times> nat" where
  "merge_with_parent children siblings p = merge_with_parent_loop children 0 siblings p"

text \<open>
  The loop \<open>for elseem in getElementsByTagNameCI(element, "else"): merge_with_parent(elseem,
  element)\<close>. Each call also unlinks \<open>elseem\<close> from the \<open>if\<close> element; the caller removes
  that element as a whole right after the loop and never reads its child list again.
  The list holds elements only, so the last equation is never used.
\<close>

fun merge_else_elements :: "node list \<Rightarrow> node list \<Rightarrow> nat \<Rightarrow> node list \<times> nat" where
  "merge_else_elements [] siblings p = (siblings, p)"
| "merge_else_elements (Element t a ks # rest) siblings p =
     (case merge_with_parent ks siblings p of
        (left, siblings', p') \<Rightarrow> merge_else_elements rest siblings' p')"
| "merge_else_elements (other # rest) siblings p = merge_else_elements rest siblings p"

text \<open>
  \<open>UIBuilder._solve_if_element(element)\<close>, where \<open>element\<close> is \<open>siblings ! p\<close>; the
  result is the child list of the parent of \<open>element\<close>.
\<close>

definition solve_if_element :: "string set \<Rightarrow> node list \<Rightarrow> nat \<Rightarrow> node list" where
  "solve_if_element conditions siblings p =
     (if p < length siblings then
        (case siblings ! p of
           Element tag attrs kids \<Rightarrow>
             (let condition = strip (lower (getAttribute attrs ''condition''))
              in if condition_met conditions condition then
                   (let kept = filter (\<lambda>c. \<not> hasTagCI ''else'' c) kids
                    in case merge_with_parent kept siblings p of
                         (left, siblings', p') \<Rightarrow> remove_nth p' siblings')
                 else
                   (case merge_else_elements (getElementsByTagNameCI kids ''else'') siblings p of
                      (siblings', p') \<Rightarrow> remove_nth p' siblings'))
         | _ \<Rightarrow> siblings)
      else siblings)"

text \<open>Facts about sizes and positions used for the termination of the passes.\<close>

lemma nsize_pos: "0 < nsize n"
  by (cases n) auto

lemma nsizes_Nil [simp]: "nsizes [] = 0"
  by (simp add: nsizes_def)

lemma nsizes_Cons [simp]: "nsizes (x # xs) = nsize x + nsizes xs"
  by (simp add: nsizes_def)

lemma nsizes_append [simp]: "nsizes (xs @ ys) = nsizes xs + nsizes ys"
  by (simp add: nsizes_def)

lemma nsizes_drop_le: "nsizes (drop n xs) \<le> nsizes xs"
proof -
  have "nsizes xs = nsizes (take n xs) + nsizes (drop n xs)"
    by (metis append_take_drop_id nsizes_append)
  then show ?thesis by simp
qed

lemma nsizes_filter_le: "nsizes (filter P xs) \<le> nsizes xs"
  by (induction xs) auto

lemma drop_Suc_remove_nth: "drop (Suc i) (remove_nth i xs) = drop (Suc (Suc i)) xs"
proof (cases "i < length xs")
  case True
  then show ?thesis by (simp add: remove_nth_def min_def)
next
  case False
  then show ?thesis by (simp add: remove_nth_def)
qed

lemma merge_with_parent_loop_shape:
  "p \<le> length siblings \<Longrightarrow>
   \<exists>left mv. merge_with_parent_loop children i siblings p
        = (left, take p siblings @ mv @ drop p siblings, p + length mv)
      \<and> set mv \<subseteq> set (drop i children) \<and> nsizes mv \<le> nsizes (drop i children)"
proof (induction children i siblings p rule: merge_with_parent_loop.induct)
  case (1 children i siblings p)
  show ?case
  proof (cases "i < length children")
    case False
    then show ?thesis by simp
  next
    case True
    show ?thesis
    proof (cases "children ! i")
      case (Element t a ks)
      have p': "Suc p \<le> length (insert_nth p (children ! i) siblings)"
        using "1.prems" by (simp add: insert_nth_def)
      from "1.IH"(1) [OF True Element p'] obtain left mv where
        eq: "merge_with_parent_loop (remove_nth i children) (Suc i)
               (insert_nth p (children ! i) siblings) (Suc p)
             = (left, take (Suc p) (insert_nth p (children ! i) siblings) @ mv
                  @ drop (Suc p) (insert_nth p (children ! i) siblings), Suc p + length mv)"
        and sub: "set mv \<subseteq> set (drop (Suc i) (remove_nth i children))"
        and le: "nsizes mv \<le> nsizes (drop (Suc i) (remove_nth i children))"
        by blast
      have t: "take (Suc p) (insert_nth p (children ! i) siblings) = take p siblings @ [children ! i]"
        using "1.prems" by (simp add: insert_nth_def min_def)
      have d: "drop (Suc p) (insert_nth p (children ! i) siblings) = drop p siblings"
        using "1.prems" by (simp add: insert_nth_def min_def)
      have call: "merge_with_parent_loop children i siblings p
            = (left, take p siblings @ (children ! i # mv) @ drop p siblings,
               p + length (children ! i # mv))"
        using True Element eq t d by simp
      have dd: "drop i children = children ! i # drop (Suc i) children"
        using True by (simp add: Cons_nth_drop_Suc)
      have s1: "set (drop (Suc (Suc i)) children) \<subseteq> set (drop (Suc i) children)"
        by (metis drop_Suc set_drop_subset drop_drop plus_1_eq_Suc tl_drop drop_tl)
      have s2: "nsizes (drop (Suc (Suc i)) children) \<le> nsizes (drop (Suc i) children)"
        by (metis nsizes_drop_le drop_drop plus_1_eq_Suc)
      have "set (children ! i # mv) \<subseteq> set (drop i children)"
        using sub s1 dd by (auto simp: drop_Suc_remove_nth)
      moreover have "nsizes (children ! i # mv) \<le> nsizes (drop i children)"
        using le s2 dd by (simp add: drop_Suc_remove_nth)
      ultimately show ?thesis using call by blast
    next
      case (Text d)
      from "1.IH"(2) [OF True Text "1.prems"] obtain left mv where
        eq: "merge_with_parent_loop children (Suc i) siblings p
             = (left, take p siblings @ mv @ drop p siblings, p + length mv)"
        and sub: "set mv \<subseteq> set (drop (Suc i) children)"
        and le: "nsizes mv \<le> nsizes (drop (Suc i) children)"
        by blast
      have dd: "drop i children = children ! i # drop (Suc i) children"
        using True by (simp add: Cons_nth_drop_Suc)
      have "merge_with_parent_loop children i siblings p
             = (left, take p siblings @ mv @ drop p siblings, p + length mv)"
        using True Text eq by simp
      moreover have "set mv \<subseteq> set (drop i children)" using sub dd by auto
      moreover have "nsizes mv \<le> nsizes (drop i children)" using le dd by simp
      ultimately show ?thesis by blast
    next
      case (Comment d)
      from "1.IH"(3) [OF True Comment "1.prems"] obtain left mv where
        eq: "merge_with_parent_loop children (Suc i) siblings p
             = (left, take p siblings @ mv @ drop p siblings, p + length mv)"
        and sub: "set mv \<subseteq> set (drop (Suc i) children)"
        and le: "nsizes mv \<le> nsizes (drop (Suc i) children)"
        by blast
      have dd: "drop i children = children ! i # drop (Suc i) children"
        using True by (simp add: Cons_nth_drop_Suc)
      have "merge_with_parent_loop children i siblings p
             = (left, take p siblings @ mv @ drop p siblings, p + length mv)"
        using True Comment eq by simp
      moreover have "set mv \<subseteq> set (drop i children)" using sub dd by auto
      moreover have "nsizes mv \<le> nsizes (drop i children)" using le dd by simp
      ultimately show ?thesis by blast
    qed
  qed
qed

lemma merge_with_parent_shape:
  "p \<le> length siblings \<Longrightarrow>
   \<exists>left mv. merge_with_parent children siblings p
        = (left, take p siblings @ mv @ drop p siblings, p + length mv)
      \<and> set mv \<subseteq> set children \<and> nsizes mv \<le> nsizes children"
  using merge_with_parent_loop_shape [of p siblings children 0]
  by (simp add: merge_with_parent_def)

lemma merge_else_elements_shape:
  "p \<le> length siblings \<Longrightarrow>
   \<exists>mv. merge_else_elements es siblings p
        = (take p siblings @ mv @ drop p siblings, p + length mv)
      \<and> (\<forall>m \<in> set mv. \<exists>t a ks. Element t a ks \<in> set es \<and> m \<in> set ks)
      \<and> nsizes mv \<le> nsizes es"
proof (induction es arbitrary: siblings p)
  case Nil
  show ?case
    by (rule exI [of _ "[]"]) simp
next
  case (Cons e es)
  show ?case
  proof (cases e)
    case (Element t a ks)
    from merge_with_parent_shape [OF Cons.prems, of ks] obtain left mv where
      eq: "merge_with_parent ks siblings p
             = (left, take p siblings @ mv @ drop p siblings, p + length mv)"
      and sub: "set mv \<subseteq> set ks"
      and le: "nsizes mv \<le> nsizes ks"
      by blast
    let ?s = "take p siblings @ mv @ drop p siblings"
    have p': "p + length mv \<le> length ?s"
      using Cons.prems by simp
    from Cons.IH [OF p'] obtain mv' where
      eq': "merge_else_elements es ?s (p + length mv)
             = (take (p + length mv) ?s @ mv' @ drop (p + length mv) ?s,
                p + length mv + length mv')"
      and sub': "\<forall>m \<in> set mv'. \<exists>t a ks. Element t a ks \<in> set es \<and> m \<in> set ks"
      and le': "nsizes mv' \<le> nsizes es"
      by blast
    have t: "take (p + length mv) ?s = take p siblings @ mv"
      using Cons.prems by (simp add: min_def)
    have d: "drop (p + length mv) ?s = drop p siblings"
      using Cons.prems by (simp add: min_def)
    have "merge_else_elements (e # es) siblings p
            = (take p siblings @ (mv @ mv') @ drop p siblings, p + length (mv @ mv'))"
      using Element eq eq' t d by simp
    moreover have "\<forall>m \<in> set (mv @ mv').
        \<exists>t' a' ks'. Element t' a' ks' \<in> set (e # es) \<and> m \<in> set ks'"
    proof
      fix m assume "m \<in> set (mv @ mv')"
      then consider "m \<in> set mv" | "m \<in> set mv'" by auto
      then show "\<exists>t' a' ks'. Element t' a' ks' \<in> set (e # es) \<and> m \<in> set ks'"
      proof cases
        case 1
        with sub Element have "Element t a ks \<in> set (e # es) \<and> m \<in> set ks" by auto
        then show ?thesis by blast
      next
        case 2
        with sub' obtain t' a' ks' where "Element t' a' ks' \<in> set es" "m \<in> set ks'" by blast
        then have "Element t' a' ks' \<in> set (e # es) \<and> m \<in> set ks'" by simp
        then show ?thesis by blast
      qed
    qed
    moreover have "nsizes (mv @ mv') \<le> nsizes (e # es)"
      using Element le le' by (simp add: nsizes_def)
    ultimately show ?thesis by blast
  next
    case (Text d)
    from Cons.IH [OF Cons.prems] obtain mv where
      "merge_else_elements es siblings p
         = (take p siblings @ mv @ drop p siblings, p + length mv)"
      "\<forall>m \<in> set mv. \<exists>t a ks. Element t a ks \<in> set es \<and> m \<in> set ks"
      "nsizes mv \<le> nsizes es"
      by blast
    then have "merge_else_elements (e # es) siblings p
           = (take p siblings @ mv @ drop p siblings, p + length mv)
        \<and> (\<forall>m \<in> set mv. \<exists>t a ks. Element t a ks \<in> set (e # es) \<and> m \<in> set ks)
        \<and> nsizes mv \<le> nsizes (e # es)"
      using Text by simp
    then show ?thesis by blast
  next
    case (Comment d)
    from Cons.IH [OF Cons.prems] obtain mv where
      "merge_else_elements es siblings p
         = (take p siblings @ mv @ drop p siblings, p + length mv)"
      "\<forall>m \<in> set mv. \<exists>t a ks. Element t a ks \<in> set es \<and> m \<in> set ks"
      "nsizes mv \<le> nsizes es"
      by blast
    then have "merge_else_elements (e # es) siblings p
           = (take p siblings @ mv @ drop p siblings, p + length mv)
        \<and> (\<forall>m \<in> set mv. \<exists>t a ks. Element t a ks \<in> set (e # es) \<and> m \<in> set ks)
        \<and> nsizes mv \<le> nsizes (e # es)"
      using Comment by simp
    then show ?thesis by blast
  qed
qed

lemma solve_if_element_shape:
  assumes "p < length siblings" and "siblings ! p = Element tag attrs kids"
  shows "\<exists>mv. solve_if_element conditions siblings p
            = take p siblings @ mv @ drop (Suc p) siblings
          \<and> nsizes mv \<le> nsizes kids
          \<and> (\<forall>m \<in> set mv. m \<in> set kids \<or> (\<exists>t a ks. Element t a ks \<in> set kids \<and> m \<in> set ks))"
proof (cases "condition_met conditions (strip (lower (getAttribute attrs ''condition'')))")
  case True
  let ?kept = "filter (\<lambda>c. \<not> hasTagCI ''else'' c) kids"
  from assms(1) have ple: "p \<le> length siblings" by simp
  from merge_with_parent_shape [OF ple, of ?kept] obtain left mv where
    eq: "merge_with_parent ?kept siblings p
           = (left, take p siblings @ mv @ drop p siblings, p + length mv)"
    and sub: "set mv \<subseteq> set ?kept"
    and le: "nsizes mv \<le> nsizes ?kept"
    by blast
  have r: "remove_nth (p + length mv) (take p siblings @ mv @ drop p siblings)
             = take p siblings @ mv @ drop (Suc p) siblings"
    using assms(1) by (simp add: remove_nth_def min_def)
  have "solve_if_element conditions siblings p = take p siblings @ mv @ drop (Suc p) siblings"
    using assms True eq r by (simp add: solve_if_element_def)
  moreover have "nsizes mv \<le> nsizes kids"
    using le nsizes_filter_le [of "\<lambda>c. \<not> hasTagCI ''else'' c" kids] by simp
  moreover have "\<forall>m \<in> set mv. m \<in> set kids" using sub by auto
  ultimately show ?thesis by blast
next
  case False
  let ?es = "getElementsByTagNameCI kids ''else''"
  from assms(1) have ple: "p \<le> length siblings" by simp
  from merge_else_elements_shape [OF ple, of ?es] obtain mv where
    eq: "merge_else_elements ?es siblings p
           = (take p siblings @ mv @ drop p siblings, p + length mv)"
    and sub: "\<forall>m \<in> set mv. \<exists>t a ks. Element t a ks \<in> set ?es \<and> m \<in> set ks"
    and le: "nsizes mv \<le> nsizes ?es"
    by blast
  have r: "remove_nth (p + length mv) (take p siblings @ mv @ drop p siblings)
             = take p siblings @ mv @ drop (Suc p) siblings"
    using assms(1) by (simp add: remove_nth_def min_def)
  have lw: "lower ''else'' = ''else''"
    by (simp add: lower_def lower_char_def)
  have "solve_if_element conditions siblings p = take p siblings @ mv @ drop (Suc p) siblings"
    using assms False eq r by (simp add: solve_if_element_def)
  moreover have "nsizes mv \<le> nsizes kids"
    using le nsizes_filter_le [of "hasTagCI (lower ''else'')" kids]
    by (simp add: getElementsByTagNameCI_def)
  moreover have "\<forall>m \<in> set mv. \<exists>t a ks. Element t a ks \<in> set kids \<and> m \<in> set ks"
    using sub by (fastforce simp: getElementsByTagNameCI_def)
  ultimately show ?thesis by blast
qed

lemma remove_nth_list_update [simp]: "remove_nth i (xs[i := x]) = remove_nth i xs"
  by (simp add: remove_nth_def)

section \<open>The conditional-expansion pass\<close>

text \<open>
  \<open>UIBuilder._find_conditions(node)\<close>, on \<open>node.childNodes\<close>. The \<open>for\<close> loop reads
  the live child list by position \<open>i\<close>, while \<open>_solve_if_element\<close> and \<open>removeChild\<close>
  change that list under it; the result is the child list of \<open>node\<close> when the loop ends.
\<close>

function find_conditions :: "string set \<Rightarrow> node list \<Rightarrow> nat \<Rightarrow> node list" where
  "find_conditions conditions children i =
     (if i < length children then
        (case children ! i of
           Element tag attrs kids \<Rightarrow>
             (let kids' = find_conditions conditions kids 0
              in if lower tag = ''if'' then
                   find_conditions conditions
                     (solve_if_element conditions (children[i := Element tag attrs kids']) i) (Suc i)
                 else if getAttribute attrs ''if'' \<noteq> [] then
                   (if \<not> condition_met conditions (getAttribute attrs ''if'') then
                      find_conditions conditions
                        (remove_nth i (children[i := Element tag attrs kids'])) (Suc i)
                    else
                      find_conditions conditions
                        (children[i := Element tag (removeAttribute attrs ''if'') kids']) (Suc i))
                 else find_conditions conditions (children[i := Element tag attrs kids']) (Suc i))
         | _ \<Rightarrow> find_conditions conditions children (Suc i))
      else children)"
  by pat_completeness auto

lemma find_conditions_nsizes:
  "find_conditions_dom (conditions, children, i) \<Longrightarrow>
   nsizes (find_conditions conditions children i) \<le> nsizes children"
proof (induction conditions children i rule: find_conditions.pinduct)
  case (1 conditions children i)
  note dom = "1.hyps"
  show ?case
  proof (cases "i < length children")
    case False
    then show ?thesis using dom by (simp add: find_conditions.psimps)
  next
    case True
    note lt = True
    show ?thesis
    proof (cases "children ! i")
      case (Element tag attrs kids)
      let ?kids' = "find_conditions conditions kids 0"
      have kle: "nsizes ?kids' \<le> nsizes kids"
        using "1.IH"(1) [OF lt Element] .
      have split: "nsizes children = nsizes (take i children) + nsize (children ! i) + nsizes (drop (Suc i) children)"
        using lt by (metis id_take_nth_drop nsizes_append nsizes_Cons add.assoc)
      have upd: "\<And>x. nsizes (children[i := x]) = nsizes (take i children) + nsize x + nsizes (drop (Suc i) children)"
        using lt by (simp add: upd_conv_take_nth_drop)
      have ci: "nsize (children ! i) = Suc (nsizes kids)"
        using Element by (simp add: nsizes_def)
      show ?thesis
      proof (cases "lower tag = ''if''")
        case True
        let ?cs = "children[i := Element tag attrs ?kids']"
        have "i < length ?cs" "?cs ! i = Element tag attrs ?kids'" using lt by simp_all
        from solve_if_element_shape [OF this, of conditions] obtain mv where
          eq: "solve_if_element conditions ?cs i = take i ?cs @ mv @ drop (Suc i) ?cs"
          and le: "nsizes mv \<le> nsizes ?kids'" by blast
        have "nsizes (find_conditions conditions (solve_if_element conditions ?cs i) (Suc i))
                \<le> nsizes (solve_if_element conditions ?cs i)"
          using "1.IH"(2) [OF lt Element refl True] .
        also have "\<dots> = nsizes (take i children) + nsizes mv + nsizes (drop (Suc i) children)"
          using eq lt by simp
        also have "\<dots> \<le> nsizes children"
          using le kle split ci by simp
        finally show ?thesis
          using dom lt Element True by (simp add: find_conditions.psimps Let_def)
      next
        case False
        note notif = False
        show ?thesis
        proof (cases "getAttribute attrs ''if'' \<noteq> []")
          case True
          note hasattr = True
          show ?thesis
          proof (cases "condition_met conditions (getAttribute attrs ''if'')")
            case False
            let ?cs = "remove_nth i (children[i := Element tag attrs ?kids'])"
            have "nsizes (find_conditions conditions ?cs (Suc i)) \<le> nsizes ?cs"
              using "1.IH"(3) [OF lt Element refl notif hasattr False] .
            also have "nsizes ?cs \<le> nsizes children"
              using split by (simp add: remove_nth_def)
            finally show ?thesis
              using dom lt Element notif hasattr False by (simp add: find_conditions.psimps Let_def)
          next
            case True
            let ?cs = "children[i := Element tag (removeAttribute attrs ''if'') ?kids']"
            have "nsizes (find_conditions conditions ?cs (Suc i)) \<le> nsizes ?cs"
              using "1.IH"(4) [OF lt Element refl notif hasattr] True by simp
            also have "\<dots> \<le> nsizes children"
              using upd split ci kle by (simp add: nsizes_def)
            finally show ?thesis
              using dom lt Element notif hasattr True by (simp add: find_conditions.psimps Let_def)
          qed
        next
          case False
          let ?cs = "children[i := Element tag attrs ?kids']"
          have "nsizes (find_conditions conditions ?cs (Suc i)) \<le> nsizes ?cs"
            using "1.IH"(5) [OF lt Element refl notif] False by simp
          also have "\<dots> \<le> nsizes children"
            using upd split ci kle by (simp add: nsizes_def)
          finally show ?thesis
            using dom lt Element notif False by (simp add: find_conditions.psimps Let_def)
        qed
      qed
    next
      case (Text d)
      then show ?thesis
        using dom lt "1.IH"(6) [OF lt Text] by (simp add: find_conditions.psimps)
    next
      case (Comment d)
      then show ?thesis
        using dom lt "1.IH"(7) [OF lt Comment] by (simp add: find_conditions.psimps)
    qed
  qed
qed

lemma nsizes_drop_nth:
  "i < length xs \<Longrightarrow> nsizes (drop i xs) = nsize (xs ! i) + nsizes (drop (Suc i) xs)"
  by (simp add: Cons_nth_drop_Suc [symmetric])

lemma nsizes_drop1_le: "nsizes (drop (Suc 0) xs) \<le> nsizes xs"
  by (cases xs) auto

termination find_conditions
proof (relation "measure (\<lambda>(conditions, children, i). nsizes (drop i children))", goal_cases)
  case 1
  show ?case by simp
next
  case (2 conditions children i tag attrs kids)
  then show ?case
    by (simp add: nsizes_drop_nth) (simp add: nsizes_def)
next
  case (3 conditions children i tag attrs kids kids')
  let ?cs = "children[i := Element tag attrs kids']"
  have lt: "i < length children" and el: "children ! i = Element tag attrs kids"
    using 3 by simp_all
  have kle: "nsizes kids' \<le> nsizes kids"
    using 3 find_conditions_nsizes by simp
  have "i < length ?cs" "?cs ! i = Element tag attrs kids'" using lt by simp_all
  from solve_if_element_shape [OF this, of conditions] obtain mv where
    eq: "solve_if_element conditions ?cs i = take i ?cs @ mv @ drop (Suc i) ?cs"
    and le: "nsizes mv \<le> nsizes kids'" by blast
  have "drop (Suc i) (solve_if_element conditions ?cs i) = drop (Suc 0) (mv @ drop (Suc i) children)"
    using eq lt by (simp add: min_def)
  then have "nsizes (drop (Suc i) (solve_if_element conditions ?cs i)) \<le> nsizes mv + nsizes (drop (Suc i) children)"
    using nsizes_drop1_le [of "mv @ drop (Suc i) children"] by simp
  also have "\<dots> < nsizes (drop i children)"
    using le kle lt el by (simp add: nsizes_drop_nth) (simp add: nsizes_def)
  finally show ?case by simp
next
  case (4 conditions children i tag attrs kids kids')
  then have lt: "i < length children" by simp
  have "nsizes (drop (Suc (Suc i)) children) \<le> nsizes (drop (Suc i) children)"
    by (metis nsizes_drop_le drop_drop plus_1_eq_Suc)
  then show ?case
    using lt nsize_pos [of "children ! i"]
    by (simp add: drop_Suc_remove_nth nsizes_drop_nth [of i])
next
  case (5 conditions children i tag attrs kids kids')
  then show ?case
    by (simp add: nsizes_drop_nth [of i] nsize_pos)
next
  case (6 conditions children i tag attrs kids kids')
  then show ?case
    by (simp add: nsizes_drop_nth [of i] nsize_pos)
next
  case (7 conditions children i d)
  then show ?case
    by (simp add: nsizes_drop_nth [of i])
next
  case (8 conditions children i d)
  then show ?case
    by (simp add: nsizes_drop_nth [of i])
qed

declare find_conditions.simps [simp del]

section \<open>The object-copy and icon-path pass\<close>

text \<open>
  \<open>search_for_id(element, id)\<close>, on \<open>element.childNodes\<close>: depth first, the first
  element carrying the id, \<open>None\<close> when there is none.
\<close>

fun search_for_id :: "node list \<Rightarrow> string \<Rightarrow> node option" where
  "search_for_id [] ident = None"
| "search_for_id (Element t a ks # rest) ident =
     (if ident = getAttribute a ''id'' then Some (Element t a ks)
      else (case search_for_id ks ident of
              Some r \<Rightarrow> Some r
            | None \<Rightarrow> search_for_id rest ident))"
| "search_for_id (other # rest) ident = search_for_id rest ident"

text \<open>
  \<open>UIBuilder.replace_icon_path\<close> appends a pair to the remap table, and the inner
  \<open>replace\<close> of \<open>_check_icon_path\<close> applies the first pair whose prefix matches.
\<close>

definition endswith_slash :: "string \<Rightarrow> bool" where
  "endswith_slash s = (s \<noteq> [] \<and> last s = CHR ''/'')"

definition replace_icon_path ::
  "(string \<times> string) list \<Rightarrow> string \<Rightarrow> string \<Rightarrow> (string \<times> string) list" where
  "replace_icon_path icon_paths prefix replace_with =
     icon_paths @
       [(if endswith_slash prefix then prefix else prefix @ ''/'',
         if endswith_slash replace_with then replace_with else replace_with @ ''/'')]"

fun replace :: "(string \<times> string) list \<Rightarrow> string \<Rightarrow> string" where
  "replace [] path = path"
| "replace ((prefix, replace_with) # rest) path =
     (if startswith path prefix then replace_with @ drop (length prefix) path
      else replace rest path)"

definition check_icon_path :: "(string \<times> string) list \<Rightarrow> node \<Rightarrow> node" where
  "check_icon_path icon_paths element =
     (case element of
        Element t a ks \<Rightarrow>
          Element t a (map (\<lambda>n. case n of Text d \<Rightarrow> Text (replace icon_paths d) | _ \<Rightarrow> n) ks)
      | _ \<Rightarrow> element)"

text \<open>The test that follows the recursive call in \<open>_objects_n_icons\<close>.\<close>

definition fix_icon :: "(string \<times> string) list \<Rightarrow> node \<Rightarrow> node" where
  "fix_icon icon_paths child =
     (case child of
        Element t a ks \<Rightarrow>
          if lower t = ''property'' then
            (if getAttribute a ''name'' = ''pixbuf'' then check_icon_path icon_paths child
             else if getAttribute a ''name'' = ''icon'' then check_icon_path icon_paths child
             else child)
          else child
      | _ \<Rightarrow> child)"

text \<open>
  The pass reads the whole, changing document when it looks an id up, so the model
  passes the document along and names the node at work by its path from the root:
  the positions to follow through the child lists.
\<close>

fun get_node :: "node \<Rightarrow> nat list \<Rightarrow> node option" where
  "get_node n [] = Some n"
| "get_node (Element t a ks) (i # path) =
     (if i < length ks then get_node (ks ! i) path else None)"
| "get_node other (i # path) = None"

fun set_node :: "node \<Rightarrow> nat list \<Rightarrow> node \<Rightarrow> node" where
  "set_node n [] new = new"
| "set_node (Element t a ks) (i # path) new =
     (if i < length ks then Element t a (ks[i := set_node (ks ! i) path new])
      else Element t a ks)"
| "set_node other (i # path) new = other"

text \<open>
  \<open>obj.cloneNode\<close> on the \<open>None\<close> that \<open>search_for_id\<close> returns for an unknown id
  raises \<open>AttributeError\<close>.
\<close>

datatype error = AttributeError

text \<open>
  \<open>UIBuilder._objects_n_icons(node)\<close>, from position \<open>i\<close> of the child list of the node
  at \<open>path\<close> in the document \<open>xml\<close> (its root element; \<open>search_for_id(self.xml, id)\<close>
  starts at the document node, whose only element child is that root). A copy takes the
  place of the \<open>copyobject\<close> tag, so the child list keeps its length and the loop visits
  every position once. The recursion has no bound of its own: a run that never returns
  is the value \<open>None\<close> (the interpreter's recursion limit is not modelled).
\<close>

partial_function (option) objects_n_icons ::
  "(string \<times> string) list \<Rightarrow> node \<Rightarrow> nat list \<Rightarrow> nat \<Rightarrow> (error + node) option" where
  "objects_n_icons icon_paths xml path i =
     (case get_node xml path of
        Some (Element tag attrs children) \<Rightarrow>
          if i < length children then
            (case children ! i of
               Element ctag cattrs ckids \<Rightarrow>
                 if lower ctag = ''copyobject'' then
                   (if getAttribute cattrs ''id'' = [] then
                      objects_n_icons icon_paths xml path (Suc i)
                    else
                      (case search_for_id [xml] (getAttribute cattrs ''id'') of
                         None \<Rightarrow> Some (Inl AttributeError)
                       | Some obj \<Rightarrow>
                           Option.bind
                             (objects_n_icons icon_paths (set_node xml (path @ [i]) obj)
                                (path @ [i]) 0)
                             (\<lambda>r. case r of
                                     Inl e \<Rightarrow> Some (Inl e)
                                   | Inr xml' \<Rightarrow> objects_n_icons icon_paths xml' path (Suc i))))
                 else
                   Option.bind (objects_n_icons icon_paths xml (path @ [i]) 0)
                     (\<lambda>r. case r of
                             Inl e \<Rightarrow> Some (Inl e)
                           | Inr xml' \<Rightarrow>
                               (case get_node xml' (path @ [i]) of
                                  Some child \<Rightarrow>
                                    objects_n_icons icon_paths
                                      (set_node xml' (path @ [i]) (fix_icon icon_paths child))
                                      path (Suc i)
                                | None \<Rightarrow> objects_n_icons icon_paths xml' path (Suc i)))
             | _ \<Rightarrow> objects_n_icons icon_paths xml path (Suc i))
          else Some (Inr xml)
      | _ \<Rightarrow> Some (Inr xml))"

declare objects_n_icons.simps [code]

section \<open>The build\<close>

text \<open>
  \<open>UIBuilder._build\<close> up to the serialisation: the first pass and then the second, both
  started at the root element. What it returns is the tree that \<open>toxml\<close> writes out.
\<close>

definition build ::
  "string set \<Rightarrow> (string \<times> string) list \<Rightarrow> node \<Rightarrow> (error + node) option" where
  "build conditions icon_paths xml =
     Option.bind (objects_n_icons icon_paths xml [] 0)
       (\<lambda>r. case r of
               Inl e \<Rightarrow> Some (Inl e)
             | Inr xml' \<Rightarrow>
                 (case xml' of
                    Element t a ks \<Rightarrow> Some (Inr (Element t a (find_conditions conditions ks 0)))
                  | _ \<Rightarrow> Some (Inr xml')))"

section \<open>Properties of trees\<close>

fun isElement :: "node \<Rightarrow> bool" where
  "isElement (Element t a ks) = True"
| "isElement other = False"

text \<open>
  The builder's private constructs, which the spec wants absent from the output:
  elements tagged \<open>if\<close>, \<open>else\<close> or \<open>copyobject\<close> in any letter case, and non-empty
  \<open>if\<close> attributes.
\<close>

fun no_templating :: "node \<Rightarrow> bool" where
  "no_templating (Element t a ks) =
     (lower t \<noteq> ''if'' \<and> lower t \<noteq> ''else'' \<and> lower t \<noteq> ''copyobject''
      \<and> getAttribute a ''if'' = [] \<and> list_all no_templating ks)"
| "no_templating other = True"

section \<open>Properties of documents with copyobject tags\<close>

text \<open>A \<open>copyobject\<close> tag that the first pass tries to resolve: one with a non-empty id.\<close>

fun copy_tag :: "node \<Rightarrow> bool" where
  "copy_tag (Element t a ks) = (lower t = ''copyobject'' \<and> getAttribute a ''id'' \<noteq> [])"
| "copy_tag other = False"

text \<open>The ids of the \<open>copyobject\<close> tags in a list of subtrees, at any depth.\<close>

fun copy_ids :: "node list \<Rightarrow> string set" where
  "copy_ids [] = {}"
| "copy_ids (Element t a ks # rest) =
     (if copy_tag (Element t a ks) then {getAttribute a ''id''} else {})
       \<union> copy_ids ks \<union> copy_ids rest"
| "copy_ids (other # rest) = copy_ids rest"

text \<open>
  The documents \<open>a id="x"\<close> nested \<open>n\<close> deep around one \<open>copyobject id="x"\<close> tag, which
  the first pass runs through when the tag names its own ancestor.
\<close>

fun nest :: "nat \<Rightarrow> node" where
  "nest 0 = Element ''copyobject'' [(''id'', ''x'')] []"
| "nest (Suc n) = Element ''a'' [(''id'', ''x'')] [nest n]"

text \<open>
  An element that the second pass does not treat as conditional: not an \<open>if\<close>
  element, and with no \<open>if\<close> attribute or an empty one.
\<close>

definition unconditional :: "string \<Rightarrow> (string \<times> string) list \<Rightarrow> bool" where
  "unconditional t a = (lower t \<noteq> ''if'' \<and> getAttribute a ''if'' = [])"

text \<open>
  An element that the second pass keeps under the given flags: not an \<open>if\<close> element,
  and with an \<open>if\<close> attribute that is absent, empty or true.
\<close>

definition passes :: "string set \<Rightarrow> string \<Rightarrow> (string \<times> string) list \<Rightarrow> bool" where
  "passes conditions t a =
     (lower t \<noteq> ''if''
      \<and> (getAttribute a ''if'' = [] \<or> condition_met conditions (getAttribute a ''if'')))"

text \<open>
  A list of subtrees holds an element in the open, under the given flags, when the
  element is in the list, or in the child list of an element of the list that passes,
  and so on downwards: neither an \<open>if\<close> element nor an element with a false \<open>if\<close>
  attribute stands between the list and it.
\<close>

fun in_the_open :: "string set \<Rightarrow> node \<Rightarrow> node list \<Rightarrow> bool" where
  "in_the_open conditions n [] = False"
| "in_the_open conditions n (Element t a ks # rest) =
     (Element t a ks = n \<or> (passes conditions t a \<and> in_the_open conditions n ks)
      \<or> in_the_open conditions n rest)"
| "in_the_open conditions n (other # rest) = in_the_open conditions n rest"

text \<open>
  The ids of a document are ranked by \<open>rank\<close> when every \<open>copyobject\<close> tag to resolve
  below an element has an id of lower rank than the id of that element, an element
  without an id counting with the empty id: what a tag refers to holds only tags that
  refer further down the ranking.
\<close>

fun ranked :: "(string \<Rightarrow> nat) \<Rightarrow> node list \<Rightarrow> bool" where
  "ranked rank [] = True"
| "ranked rank (Element t a ks # rest) =
     ((\<forall>k \<in> copy_ids ks. rank k < rank (getAttribute a ''id''))
      \<and> ranked rank ks \<and> ranked rank rest)"
| "ranked rank (other # rest) = ranked rank rest"




text \<open>The depth of a list of subtrees: the longest chain of nodes nested in one another.\<close>

fun ndepths :: "node list \<Rightarrow> nat" where
  "ndepths [] = 0"
| "ndepths (Element t a ks # rest) = max (Suc (ndepths ks)) (ndepths rest)"
| "ndepths (other # rest) = max 1 (ndepths rest)"

text \<open>
  A set of ids is dominated by another when each of its ids has at most the rank of
  some id of the other.
\<close>

definition dominated :: "(string \<Rightarrow> nat) \<Rightarrow> string set \<Rightarrow> string set \<Rightarrow> bool" where
  "dominated rank X Y = (\<forall>j\<in>X. \<exists>k\<in>Y. rank j \<le> rank k)"

section \<open>Facts about the condition evaluator\<close>

lemma split_left_append_in: "sep \<in> set a \<Longrightarrow> split_left sep (a @ b) = split_left sep a"
  unfolding split_left_def by (rule takeWhile_append1) auto

lemma split_right_append_in: "sep \<in> set a \<Longrightarrow> split_right sep (a @ b) = split_right sep a @ b"
proof -
  assume in_a: "sep \<in> set a"
  have "dropWhile (\<lambda>c. c \<noteq> sep) (a @ b) = dropWhile (\<lambda>c. c \<noteq> sep) a @ b"
    using in_a by (intro dropWhile_append1 [of sep]) auto
  moreover have "dropWhile (\<lambda>c. c \<noteq> sep) a \<noteq> []"
    using in_a by (auto simp: dropWhile_eq_Nil_conv)
  ultimately show ?thesis
    by (simp add: split_right_def)
qed

lemma split_left_append_notin: "sep \<notin> set a \<Longrightarrow> split_left sep (a @ sep # b) = a"
  unfolding split_left_def by (subst takeWhile_append2) auto

lemma split_right_append_notin: "sep \<notin> set a \<Longrightarrow> split_right sep (a @ sep # b) = b"
  unfolding split_right_def by (subst dropWhile_append2) auto

lemma fst_condition_met_trace:
  "fst (condition_met_trace conditions cond) = condition_met conditions cond"
proof (induction conditions cond rule: condition_met.induct)
  case (1 conditions cond)
  show ?case
  proof (cases "CHR ''|'' \<in> set cond")
    case True
    obtain r1 t1 where l: "condition_met_trace conditions (split_left CHR ''|'' cond) = (r1, t1)"
      by (cases "condition_met_trace conditions (split_left CHR ''|'' cond)")
    obtain r2 t2 where r: "condition_met_trace conditions (split_right CHR ''|'' cond) = (r2, t2)"
      by (cases "condition_met_trace conditions (split_right CHR ''|'' cond)")
    have e1: "condition_met conditions (split_left CHR ''|'' cond) = r1"
      using "1.IH"(1) [OF True] l by simp
    have e2: "\<not> r1 \<Longrightarrow> condition_met conditions (split_right CHR ''|'' cond) = r2"
      using "1.IH"(2) [OF True] e1 r by simp
    show ?thesis
      using True l r e1 e2
      by (subst condition_met_trace.simps, subst condition_met.simps) auto
  next
    case False
    note nobar = False
    show ?thesis
    proof (cases "CHR ''&'' \<in> set cond")
      case True
      obtain r1 t1 where l: "condition_met_trace conditions (split_left CHR ''&'' cond) = (r1, t1)"
        by (cases "condition_met_trace conditions (split_left CHR ''&'' cond)")
      obtain r2 t2 where r: "condition_met_trace conditions (split_right CHR ''&'' cond) = (r2, t2)"
        by (cases "condition_met_trace conditions (split_right CHR ''&'' cond)")
      have e1: "condition_met conditions (split_left CHR ''&'' cond) = r1"
        using "1.IH"(3) [OF nobar True] l by simp
      have e2: "r1 \<Longrightarrow> condition_met conditions (split_right CHR ''&'' cond) = r2"
        using "1.IH"(4) [OF nobar True] e1 r by simp
      show ?thesis
        using nobar True l r e1 e2
        by (subst condition_met_trace.simps, subst condition_met.simps) auto
    next
      case False
      note noamp = False
      show ?thesis
      proof (cases "startswith (strip cond) ''!''")
        case True
        obtain r t where l: "condition_met_trace conditions (tl (strip cond)) = (r, t)"
          by (cases "condition_met_trace conditions (tl (strip cond))")
        have "condition_met conditions (tl (strip cond)) = r"
          using "1.IH"(5) [OF nobar noamp True] l by simp
        then show ?thesis
          using nobar noamp True l
          by (subst condition_met_trace.simps, subst condition_met.simps) simp
      next
        case False
        then show ?thesis
          using nobar noamp
          by (subst condition_met_trace.simps, subst condition_met.simps) simp
      qed
    qed
  qed
qed

lemma rstrip_Cons:
  "rstrip (x # s) = (if isspace x \<and> rstrip s = [] then [] else x # rstrip s)"
proof (cases "\<forall>y \<in> set s. isspace y")
  case True
  then have "rstrip s = []"
    by (simp add: rstrip_def dropWhile_eq_Nil_conv)
  moreover have "rstrip (x # s) = (if isspace x then [] else [x])"
    using True by (simp add: rstrip_def dropWhile_append)
  ultimately show ?thesis by simp
next
  case False
  then have "rstrip s \<noteq> []"
    by (simp add: rstrip_def dropWhile_eq_Nil_conv)
  moreover have "rstrip (x # s) = x # rstrip s"
    using False by (simp add: rstrip_def dropWhile_append)
  ultimately show ?thesis by simp
qed

lemma lstrip_rstrip: "lstrip (rstrip s) = rstrip (lstrip s)"
proof (induction s)
  case Nil
  show ?case by (simp add: lstrip_def rstrip_def)
next
  case (Cons x s)
  show ?case
  proof (cases "isspace x")
    case True
    then have l: "lstrip (x # s) = lstrip s" by (simp add: lstrip_def)
    show ?thesis
    proof (cases "rstrip s = []")
      case True
      then have "rstrip (lstrip s) = []"
        using Cons.IH by (simp add: lstrip_def)
      then show ?thesis
        using True \<open>isspace x\<close> l by (simp add: rstrip_Cons) (simp add: lstrip_def)
    next
      case False
      then have "lstrip (rstrip (x # s)) = lstrip (rstrip s)"
        using \<open>isspace x\<close> by (simp add: rstrip_Cons) (simp add: lstrip_def)
      then show ?thesis using Cons.IH l by simp
    qed
  next
    case False
    then show ?thesis
      by (simp add: rstrip_Cons) (simp add: lstrip_def rstrip_Cons)
  qed
qed

lemma rstrip_idem: "rstrip (rstrip s) = rstrip s"
  by (simp add: rstrip_def)

lemma strip_rstrip: "strip (rstrip s) = strip s"
  by (simp add: strip_def lstrip_rstrip rstrip_idem)

lemma strip_Cons_nonspace: "\<not> isspace c \<Longrightarrow> strip (c # s) = c # rstrip s"
  by (simp add: strip_def lstrip_def rstrip_Cons)

lemma set_rstrip_subset: "set (rstrip s) \<subseteq> set s"
  unfolding rstrip_def using set_dropWhileD by fastforce

lemma condition_met_rstrip:
  assumes "CHR ''|'' \<notin> set a" and "CHR ''&'' \<notin> set a"
  shows "condition_met conditions (rstrip a) = condition_met conditions a"
proof -
  have "CHR ''|'' \<notin> set (rstrip a)" "CHR ''&'' \<notin> set (rstrip a)"
    using assms set_rstrip_subset [of a] by auto
  then have "condition_met conditions (rstrip a)
      = (if startswith (strip a) ''!'' then \<not> condition_met conditions (tl (strip a))
         else strip a \<in> conditions)"
    by (subst condition_met.simps) (simp add: strip_rstrip)
  also have "\<dots> = condition_met conditions a"
    using assms by (subst (2) condition_met.simps) simp
  finally show ?thesis .
qed

section \<open>A copy of an ancestor\<close>

lemma get_node_nest: "k \<le> n \<Longrightarrow> get_node (nest n) (replicate k 0) = Some (nest (n - k))"
proof (induction k arbitrary: n)
  case 0
  show ?case by simp
next
  case (Suc k)
  then obtain m where n: "n = Suc m" by (cases n) auto
  with Suc show ?case by simp
qed

lemma set_node_nest:
  "k \<le> n \<Longrightarrow> set_node (nest n) (replicate k 0) (nest m) = nest (k + m)"
proof (induction k arbitrary: n)
  case 0
  show ?case by simp
next
  case (Suc k)
  then obtain n' where n: "n = Suc n'" by (cases n) auto
  with Suc show ?case by simp
qed

lemma search_for_id_nest: "search_for_id [nest (Suc n)] ''x'' = Some (nest (Suc n))"
  by (simp add: getAttribute_def)

lemma lower_copyobject: "lower ''copyobject'' = ''copyobject''"
  by (simp add: lower_def lower_char_def)

lemma lower_a: "lower ''a'' \<noteq> ''copyobject''"
  by (simp add: lower_def lower_char_def)

lemma objects_n_icons_nest_diverges:
  assumes "objects_n_icons icon_paths xml path i = Some y"
  shows "\<not> (\<exists>n k. k < n \<and> xml = nest n \<and> path = replicate k 0 \<and> i = 0)"
proof (rule objects_n_icons.raw_induct
    [where P = "\<lambda>icon_paths xml path i y.
       \<not> (\<exists>n k. k < n \<and> xml = nest n \<and> path = replicate k 0 \<and> i = 0)",
     OF _ assms], goal_cases)
  case (1 f icon_paths xml path i y)
  note ih = "1"(1) and body = "1"(2)
  show ?case
  proof
    assume "\<exists>n k. k < n \<and> xml = nest n \<and> path = replicate k 0 \<and> i = 0"
    then obtain n k where kn: "k < n" and xml: "xml = nest n"
      and path: "path = replicate k 0" and i: "i = 0" by blast
    obtain d where d: "n - k = Suc d" using kn by (cases "n - k") auto
    have g: "get_node xml path = Some (Element ''a'' [(''id'', ''x'')] [nest d])"
      using get_node_nest [of k n] kn xml path d by simp
    have p: "path @ [i] = replicate (Suc k) 0"
      using path i by (simp add: replicate_append_same)
    show False
    proof (cases d)
      case 0
      obtain n' where n': "n = Suc n'" using kn by (cases n) auto
      have s: "search_for_id [xml] ''x'' = Some (nest n)"
        using xml n' search_for_id_nest by simp
      have sn: "set_node xml (replicate (Suc k) 0) (nest n) = nest (Suc k + n)"
        using set_node_nest [of "Suc k" n n] kn xml by simp
      from body g i 0 s
      have "\<exists>r. f icon_paths (set_node xml (path @ [i]) (nest n)) (path @ [i]) 0 = Some r"
        by (auto simp: lower_copyobject getAttribute_def bind_eq_Some_conv)
      then obtain r where fr: "f icon_paths (nest (Suc k + n)) (replicate (Suc k) 0) 0 = Some r"
        unfolding p sn by blast
      have "\<not> (\<exists>n' k'. k' < n' \<and> nest (Suc k + n) = nest n'
                \<and> replicate (Suc k) (0::nat) = replicate k' 0 \<and> (0::nat) = 0)"
        using ih [OF fr] .
      moreover have "Suc k < Suc k + n" using kn by simp
      ultimately show False by blast
    next
      case (Suc d')
      have sk: "Suc k < n" using d Suc by simp
      from body g i Suc
      have "\<exists>r. f icon_paths xml (path @ [i]) 0 = Some r"
        by (auto simp: lower_a bind_eq_Some_conv)
      then obtain r where fr: "f icon_paths xml (replicate (Suc k) 0) 0 = Some r"
        unfolding p by blast
      have "\<not> (\<exists>n' k'. k' < n' \<and> xml = nest n'
                \<and> replicate (Suc k) (0::nat) = replicate k' 0 \<and> (0::nat) = 0)"
        using ih [OF fr] .
      with sk xml show False by blast
    qed
  qed
qed

section \<open>Paths, ids and the lookup\<close>

lemma get_node_append:
  "get_node n (p @ q) = (case get_node n p of None \<Rightarrow> None | Some m \<Rightarrow> get_node m q)"
  by (induction n p rule: get_node.induct) auto

lemma get_node_child:
  "get_node xml path = Some (Element t a ks) \<Longrightarrow> i < length ks
   \<Longrightarrow> get_node xml (path @ [i]) = Some (ks ! i)"
  by (simp add: get_node_append)

lemma set_node_same: "get_node n p = Some m \<Longrightarrow> set_node n p m = n"
  by (induction n p arbitrary: m rule: get_node.induct) (auto split: if_splits)

lemma get_set_node: "get_node n p = Some m \<Longrightarrow> get_node (set_node n p new) p = Some new"
  by (induction n p arbitrary: m rule: get_node.induct) (auto split: if_splits)

lemma set_set_node: "set_node (set_node n p x) p y = set_node n p y"
  by (induction n p x rule: set_node.induct) auto

lemma set_node_append:
  "get_node n p = Some m \<Longrightarrow> set_node n (p @ q) x = set_node n p (set_node m q x)"
  by (induction n p arbitrary: m rule: get_node.induct) (auto split: if_splits)

lemma set_node_child:
  "get_node xml path = Some (Element t a ks) \<Longrightarrow> i < length ks
   \<Longrightarrow> set_node xml (path @ [i]) c = set_node xml path (Element t a (ks[i := c]))"
  by (simp add: set_node_append)

lemma search_for_id_found:
  "j < length xs \<Longrightarrow> get_node (xs ! j) p = Some (Element t a ks)
   \<Longrightarrow> getAttribute a ''id'' = k \<Longrightarrow> search_for_id xs k \<noteq> None"
proof (induction "nsizes xs" arbitrary: xs j p rule: less_induct)
  case less
  note lt = less.prems(1) and g = less.prems(2) and id = less.prems(3)
  from lt obtain x rest where xs: "xs = x # rest" by (cases xs) auto
  show ?case
  proof (cases x)
    case (Element t' a' ks')
    have small1: "nsizes ks' < nsizes xs" and small2: "nsizes rest < nsizes xs"
      using xs Element by (simp_all add: nsizes_def)
    show ?thesis
    proof (cases "getAttribute a' ''id'' = k")
      case True
      then show ?thesis using xs Element by simp
    next
      case False
      note other = False
      show ?thesis
      proof (cases j)
        case 0
        have "p \<noteq> []"
        proof
          assume "p = []"
          with g 0 xs Element id other show False by simp
        qed
        then obtain i q where p: "p = i # q" by (cases p) auto
        with g 0 xs Element have i: "i < length ks'"
          and gi: "get_node (ks' ! i) q = Some (Element t a ks)"
          by (auto split: if_splits)
        from less.hyps [OF small1 i gi id]
        show ?thesis using xs Element other by (auto split: option.splits)
      next
        case (Suc j')
        with lt g xs have j': "j' < length rest"
          and gj: "get_node (rest ! j') p = Some (Element t a ks)"
          by simp_all
        from less.hyps [OF small2 j' gj id]
        show ?thesis using xs Element other by (auto split: option.splits)
      qed
    qed
  next
    case (Text d)
    have small: "nsizes rest < nsizes xs" using xs Text by simp
    show ?thesis
    proof (cases j)
      case 0
      with g xs Text show ?thesis by (cases p) simp_all
    next
      case (Suc j')
      with lt g xs have j': "j' < length rest"
        and gj: "get_node (rest ! j') p = Some (Element t a ks)"
        by simp_all
      from less.hyps [OF small j' gj id] show ?thesis using xs Text by simp
    qed
  next
    case (Comment d)
    have small: "nsizes rest < nsizes xs" using xs Comment by simp
    show ?thesis
    proof (cases j)
      case 0
      with g xs Comment show ?thesis by (cases p) simp_all
    next
      case (Suc j')
      with lt g xs have j': "j' < length rest"
        and gj: "get_node (rest ! j') p = Some (Element t a ks)"
        by simp_all
      from less.hyps [OF small j' gj id] show ?thesis using xs Comment by simp
    qed
  qed
qed

lemma copy_ids_append: "copy_ids (xs @ ys) = copy_ids xs \<union> copy_ids ys"
  by (induction xs rule: copy_ids.induct) auto

lemma copy_ids_nth: "i < length xs \<Longrightarrow> copy_ids [xs ! i] \<subseteq> copy_ids xs"
proof -
  assume lt: "i < length xs"
  then have "xs = take i xs @ [xs ! i] @ drop (Suc i) xs"
    by (simp add: id_take_nth_drop)
  then have "copy_ids xs = copy_ids (take i xs) \<union> copy_ids [xs ! i]
      \<union> copy_ids (drop (Suc i) xs)"
    by (metis copy_ids_append Un_assoc)
  then show ?thesis by blast
qed

lemma objects_n_icons_end:
  "get_node xml path = Some (Element t a ks) \<Longrightarrow> length ks \<le> i
   \<Longrightarrow> objects_n_icons icon_paths xml path i = Some (Inr xml)"
  by (subst objects_n_icons.simps) simp

lemma objects_n_icons_skip:
  "get_node xml path = Some (Element t a ks) \<Longrightarrow> i < length ks
   \<Longrightarrow> \<not> isElement (ks ! i) \<or> (\<exists>ct ca cks. ks ! i = Element ct ca cks
          \<and> lower ct = ''copyobject'' \<and> getAttribute ca ''id'' = [])
   \<Longrightarrow> objects_n_icons icon_paths xml path i = objects_n_icons icon_paths xml path (Suc i)"
  by (subst objects_n_icons.simps) (auto split: node.splits)

lemma objects_n_icons_copy:
  "get_node xml path = Some (Element t a ks) \<Longrightarrow> i < length ks
   \<Longrightarrow> ks ! i = Element ct ca cks \<Longrightarrow> lower ct = ''copyobject''
   \<Longrightarrow> getAttribute ca ''id'' \<noteq> []
   \<Longrightarrow> search_for_id [xml] (getAttribute ca ''id'') = Some obj
   \<Longrightarrow> objects_n_icons icon_paths (set_node xml (path @ [i]) obj) (path @ [i]) 0 = Some (Inr xml')
   \<Longrightarrow> objects_n_icons icon_paths xml path i = objects_n_icons icon_paths xml' path (Suc i)"
  by (subst objects_n_icons.simps) simp

lemma objects_n_icons_descend:
  "get_node xml path = Some (Element t a ks) \<Longrightarrow> i < length ks
   \<Longrightarrow> ks ! i = Element ct ca cks \<Longrightarrow> lower ct \<noteq> ''copyobject''
   \<Longrightarrow> objects_n_icons icon_paths xml (path @ [i]) 0 = Some (Inr xml')
   \<Longrightarrow> get_node xml' (path @ [i]) = Some child
   \<Longrightarrow> objects_n_icons icon_paths xml path i
       = objects_n_icons icon_paths (set_node xml' (path @ [i]) (fix_icon icon_paths child))
           path (Suc i)"
  by (subst objects_n_icons.simps) simp

lemma nsizes_child_less: "i < length ks \<Longrightarrow> ks ! i = Element ct ca cks \<Longrightarrow> nsizes cks < nsizes ks"
proof -
  assume lt: "i < length ks" and c: "ks ! i = Element ct ca cks"
  have "nsizes ks = nsizes (take i ks) + nsize (ks ! i) + nsizes (drop (Suc i) ks)"
    using lt by (metis id_take_nth_drop nsizes_append nsizes_Cons add.assoc)
  then show ?thesis using c by (simp add: nsizes_def)
qed

lemma copy_ids_child:
  "i < length ks \<Longrightarrow> ks ! i = Element ct ca cks \<Longrightarrow> copy_ids cks \<subseteq> copy_ids ks"
  using copy_ids_nth [of i ks] by auto

lemma copy_ids_tag:
  "i < length ks \<Longrightarrow> ks ! i = Element ct ca cks \<Longrightarrow> lower ct = ''copyobject''
   \<Longrightarrow> getAttribute ca ''id'' \<noteq> [] \<Longrightarrow> getAttribute ca ''id'' \<in> copy_ids ks"
  using copy_ids_nth [of i ks] by auto


lemma copy_ids_Cons: "copy_ids (x # xs) = copy_ids [x] \<union> copy_ids xs"
  using copy_ids_append [of "[x]" xs] by simp

lemma search_for_id_result:
  "search_for_id xs k = Some r
   \<Longrightarrow> \<exists>j q t a ks. j < length xs \<and> get_node (xs ! j) q = Some r
         \<and> r = Element t a ks \<and> getAttribute a ''id'' = k"
proof (induction "nsizes xs" arbitrary: xs rule: less_induct)
  case less
  from less.prems obtain x rest where xs: "xs = x # rest" by (cases xs) auto
  have shift: "\<exists>j q t a ks. j < length xs \<and> get_node (xs ! j) q = Some r
         \<and> r = Element t a ks \<and> getAttribute a ''id'' = k"
    if "search_for_id rest k = Some r"
  proof -
    have "nsizes rest < nsizes xs" using xs nsize_pos [of x] by simp
    from less.hyps [OF this that] obtain j q t a ks where
      "j < length rest" "get_node (rest ! j) q = Some r" "r = Element t a ks"
      "getAttribute a ''id'' = k" by blast
    then have "Suc j < length xs \<and> get_node (xs ! Suc j) q = Some r
         \<and> r = Element t a ks \<and> getAttribute a ''id'' = k"
      using xs by simp
    then show ?thesis by blast
  qed
  show ?case
  proof (cases x)
    case (Element t' a' ks')
    show ?thesis
    proof (cases "k = getAttribute a' ''id''")
      case True
      with less.prems xs Element have "r = Element t' a' ks'" by simp
      then have "0 < length xs \<and> get_node (xs ! 0) [] = Some r
         \<and> r = Element t' a' ks' \<and> getAttribute a' ''id'' = k"
        using xs Element True by simp
      then show ?thesis by blast
    next
      case False
      show ?thesis
      proof (cases "search_for_id ks' k")
        case None
        with less.prems xs Element False have "search_for_id rest k = Some r" by simp
        then show ?thesis by (rule shift)
      next
        case (Some r')
        with less.prems xs Element False have r': "r' = r" by simp
        have "nsizes ks' < nsizes xs" using xs Element by (simp add: nsizes_def)
        from less.hyps [OF this Some [unfolded r']] obtain j q t a ks where
          "j < length ks'" "get_node (ks' ! j) q = Some r" "r = Element t a ks"
          "getAttribute a ''id'' = k" by blast
        then have "0 < length xs \<and> get_node (xs ! 0) (j # q) = Some r
           \<and> r = Element t a ks \<and> getAttribute a ''id'' = k"
          using xs Element by simp
        then show ?thesis by blast
      qed
    qed
  next
    case (Text d)
    with less.prems xs have "search_for_id rest k = Some r" by simp
    then show ?thesis by (rule shift)
  next
    case (Comment d)
    with less.prems xs have "search_for_id rest k = Some r" by simp
    then show ?thesis by (rule shift)
  qed
qed

lemma copy_ids_map:
  "(\<And>x. x \<in> set xs \<Longrightarrow> copy_ids [g x] = copy_ids [x])
   \<Longrightarrow> copy_ids (map g xs) = copy_ids xs"
proof (induction xs)
  case Nil
  show ?case by simp
next
  case (Cons x xs)
  then show ?case
    using copy_ids_Cons [of "g x" "map g xs"] copy_ids_Cons [of x xs] by simp
qed

lemma drop_nth_eq: "drop i xs = drop i ys \<Longrightarrow> i < length xs \<Longrightarrow> length xs = length ys \<Longrightarrow> xs ! i = ys ! i"
  by (metis Cons_nth_drop_Suc nth_Cons_0 nth_via_drop)

lemma drop_Suc_eq: "drop i xs = drop i ys \<Longrightarrow> drop (Suc i) xs = drop (Suc i) ys"
  by (metis drop_Suc tl_drop)

section \<open>Facts about the conditional-expansion pass\<close>

lemma take_solve_if_element: "take p (solve_if_element conditions siblings p) = take p siblings"
proof (cases "p < length siblings")
  case False
  then show ?thesis by (simp add: solve_if_element_def)
next
  case True
  show ?thesis
  proof (cases "siblings ! p")
    case (Element tag attrs kids)
    from solve_if_element_shape [OF True Element, of conditions] obtain mv where
      "solve_if_element conditions siblings p = take p siblings @ mv @ drop (Suc p) siblings"
      by blast
    then show ?thesis using True by simp
  next
    case (Text d)
    then show ?thesis using True by (simp add: solve_if_element_def)
  next
    case (Comment d)
    then show ?thesis using True by (simp add: solve_if_element_def)
  qed
qed

lemma take_find_conditions: "take i (find_conditions conditions children i) = take i children"
proof (induction conditions children i rule: find_conditions.induct)
  case (1 conditions children i)
  have step: "take i (find_conditions conditions cs (Suc i)) = take i children"
    if ih: "take (Suc i) (find_conditions conditions cs (Suc i)) = take (Suc i) cs"
      and pre: "take i cs = take i children" for cs
  proof -
    have "take i (find_conditions conditions cs (Suc i))
            = take i (take (Suc i) (find_conditions conditions cs (Suc i)))"
      by (simp add: min_def)
    also have "\<dots> = take i (take (Suc i) cs)" using ih by simp
    also have "\<dots> = take i children" using pre by (simp add: min_def)
    finally show ?thesis .
  qed
  show ?case
  proof (cases "i < length children")
    case False
    then show ?thesis by (subst find_conditions.simps) simp
  next
    case True
    note lt = True
    show ?thesis
    proof (cases "children ! i")
      case (Element tag attrs kids)
      let ?kids' = "find_conditions conditions kids 0"
      let ?cs = "children[i := Element tag attrs ?kids']"
      show ?thesis
      proof (cases "lower tag = ''if''")
        case True
        have "take i (find_conditions conditions (solve_if_element conditions ?cs i) (Suc i))
                = take i children"
          by (rule step [OF "1.IH"(2) [OF lt Element refl True]])
             (simp add: take_solve_if_element)
        then show ?thesis
          using lt Element True by (subst find_conditions.simps) (simp add: Let_def)
      next
        case False
        note notif = False
        show ?thesis
        proof (cases "getAttribute attrs ''if'' \<noteq> []")
          case True
          note hasattr = True
          show ?thesis
          proof (cases "condition_met conditions (getAttribute attrs ''if'')")
            case False
            have "take i (find_conditions conditions (remove_nth i ?cs) (Suc i)) = take i children"
              using lt
              by (intro step [OF "1.IH"(3) [OF lt Element refl notif hasattr False]])
                 (simp add: remove_nth_def)
            then show ?thesis
              using lt Element notif hasattr False
              by (subst find_conditions.simps) (simp add: Let_def)
          next
            case True
            have "take i (find_conditions conditions
                    (children[i := Element tag (removeAttribute attrs ''if'') ?kids']) (Suc i))
                  = take i children"
              using "1.IH"(4) [OF lt Element refl notif hasattr] True
              by (intro step) simp_all
            then show ?thesis
              using lt Element notif hasattr True
              by (subst find_conditions.simps) (simp add: Let_def)
          qed
        next
          case False
          have "take i (find_conditions conditions ?cs (Suc i)) = take i children"
            using "1.IH"(5) [OF lt Element refl notif] False
            by (intro step) simp_all
          then show ?thesis
            using lt Element notif False
            by (subst find_conditions.simps) (simp add: Let_def)
        qed
      qed
    next
      case (Text d)
      have "take i (find_conditions conditions children (Suc i)) = take i children"
        by (rule step [OF "1.IH"(6) [OF lt Text]]) simp
      then show ?thesis
        using lt Text by (subst find_conditions.simps) simp
    next
      case (Comment d)
      have "take i (find_conditions conditions children (Suc i)) = take i children"
        by (rule step [OF "1.IH"(7) [OF lt Comment]]) simp
      then show ?thesis
        using lt Comment by (subst find_conditions.simps) simp
    qed
  qed
qed

section \<open>Ranked documents\<close>

lemma dominated_subset: "X \<subseteq> Y \<Longrightarrow> dominated rank X Y"
  unfolding dominated_def by blast

lemma dominated_Un:
  "dominated rank X Y \<Longrightarrow> dominated rank X' Y' \<Longrightarrow> dominated rank (X \<union> X') (Y \<union> Y')"
  unfolding dominated_def by blast

lemma dominated_less:
  "dominated rank X Y \<Longrightarrow> \<forall>k\<in>Y. rank k < b \<Longrightarrow> \<forall>j\<in>X. rank j < b"
  unfolding dominated_def by (meson le_less_trans)

lemma copy_ids_update_dominated:
  assumes "i < length xs" and "dominated rank (copy_ids [x]) (copy_ids [xs ! i])"
  shows "dominated rank (copy_ids (xs[i := x])) (copy_ids xs)"
proof -
  have a: "xs[i := x] = take i xs @ [x] @ drop (Suc i) xs"
    using assms(1) by (simp add: upd_conv_take_nth_drop)
  have b: "xs = take i xs @ [xs ! i] @ drop (Suc i) xs"
    using assms(1) by (simp add: id_take_nth_drop)
  have "dominated rank
      (copy_ids (take i xs) \<union> (copy_ids [x] \<union> copy_ids (drop (Suc i) xs)))
      (copy_ids (take i xs) \<union> (copy_ids [xs ! i] \<union> copy_ids (drop (Suc i) xs)))"
    by (intro dominated_Un dominated_subset subset_refl assms(2))
  then have "dominated rank (copy_ids (take i xs @ [x] @ drop (Suc i) xs))
      (copy_ids (take i xs @ [xs ! i] @ drop (Suc i) xs))"
    by (simp only: copy_ids_append)
  then show ?thesis using a b by simp
qed

lemma copy_ids_set_node_dominated:
  "get_node n p = Some old \<Longrightarrow> dominated rank (copy_ids [new]) (copy_ids [old])
   \<Longrightarrow> dominated rank (copy_ids [set_node n p new]) (copy_ids [n])"
proof (induction n p arbitrary: old rule: get_node.induct)
  case (1 n)
  then show ?case by simp
next
  case (2 t a ks i path)
  then have lt: "i < length ks" and g: "get_node (ks ! i) path = Some old"
    by (auto split: if_splits)
  have "dominated rank (copy_ids [set_node (ks ! i) path new]) (copy_ids [ks ! i])"
    using "2.IH" [OF lt g "2.prems"(2)] .
  then have d: "dominated rank (copy_ids (ks[i := set_node (ks ! i) path new])) (copy_ids ks)"
    using lt by (intro copy_ids_update_dominated)
  have "dominated rank
      ((if copy_tag (Element t a ks) then {getAttribute a ''id''} else {})
         \<union> copy_ids (ks[i := set_node (ks ! i) path new]))
      ((if copy_tag (Element t a ks) then {getAttribute a ''id''} else {}) \<union> copy_ids ks)"
    by (rule dominated_Un [OF dominated_subset [OF subset_refl] d])
  then show ?case using lt by simp
qed simp_all

lemma ranked_append: "ranked rank (xs @ ys) = (ranked rank xs \<and> ranked rank ys)"
  by (induction rank xs rule: ranked.induct) auto

lemma ranked_Cons: "ranked rank (x # xs) = (ranked rank [x] \<and> ranked rank xs)"
  using ranked_append [of rank "[x]" xs] by simp

lemma ranked_nth: "ranked rank xs \<Longrightarrow> i < length xs \<Longrightarrow> ranked rank [xs ! i]"
proof -
  assume r: "ranked rank xs" and lt: "i < length xs"
  have "xs = take i xs @ [xs ! i] @ drop (Suc i) xs"
    using lt by (simp add: id_take_nth_drop)
  then have "ranked rank (take i xs @ [xs ! i] @ drop (Suc i) xs)" using r by simp
  then show ?thesis by (simp only: ranked_append)
qed

lemma ranked_update:
  assumes "ranked rank xs" and "ranked rank [x]"
  shows "ranked rank (xs[i := x])"
proof (cases "i < length xs")
  case False
  then have "length xs \<le> i" by (simp only: not_less)
  then have "xs[i := x] = xs" by (rule list_update_beyond)
  then show ?thesis using assms(1) by simp
next
  case True
  have b: "xs = take i xs @ [xs ! i] @ drop (Suc i) xs"
    using True by (simp add: id_take_nth_drop)
  have "ranked rank (take i xs @ [xs ! i] @ drop (Suc i) xs)" using assms(1) b by simp
  then have "ranked rank (take i xs @ [x] @ drop (Suc i) xs)"
    using assms(2)
    by (simp add: ranked_append ranked_Cons [of rank x "drop (Suc i) xs"]
          ranked_Cons [of rank "xs ! i" "drop (Suc i) xs"])
  then show ?thesis using True by (simp add: upd_conv_take_nth_drop)
qed

lemma ranked_node:
  "ranked rank [n] \<Longrightarrow> get_node n p = Some m \<Longrightarrow> ranked rank [m]"
proof (induction n p rule: get_node.induct)
  case (1 n)
  then show ?case by simp
next
  case (2 t' a' ks' i path)
  then have lt: "i < length ks'" and g: "get_node (ks' ! i) path = Some m"
    by (auto split: if_splits)
  have "ranked rank ks'" using "2.prems"(1) by simp
  then have "ranked rank [ks' ! i]" using lt by (rule ranked_nth)
  then show ?case using "2.IH" [OF lt _ g] by simp
qed simp_all

lemma ranked_set_node:
  "ranked rank [n] \<Longrightarrow> get_node n p = Some old \<Longrightarrow> ranked rank [new]
   \<Longrightarrow> dominated rank (copy_ids [new]) (copy_ids [old])
   \<Longrightarrow> ranked rank [set_node n p new]"
proof (induction n p arbitrary: old rule: get_node.induct)
  case (1 n)
  then show ?case by simp
next
  case (2 t a ks i path)
  then have lt: "i < length ks" and g: "get_node (ks ! i) path = Some old"
    by (auto split: if_splits)
  let ?m = "set_node (ks ! i) path new"
  have rk: "ranked rank ks" using "2.prems"(1) by simp
  then have "ranked rank [ks ! i]" using lt by (rule ranked_nth)
  then have rm: "ranked rank [?m]"
    using "2.IH" [OF lt _ g "2.prems"(3,4)] by simp
  have r': "ranked rank (ks[i := ?m])"
    using rk rm by (rule ranked_update)
  have "dominated rank (copy_ids [?m]) (copy_ids [ks ! i])"
    using copy_ids_set_node_dominated [OF g "2.prems"(4)] .
  then have "dominated rank (copy_ids (ks[i := ?m])) (copy_ids ks)"
    using lt by (intro copy_ids_update_dominated)
  moreover have "\<forall>k\<in>copy_ids ks. rank k < rank (getAttribute a ''id'')"
    using "2.prems"(1) by simp
  ultimately have "\<forall>k\<in>copy_ids (ks[i := ?m]). rank k < rank (getAttribute a ''id'')"
    by (rule dominated_less)
  then show ?case using lt r' by simp
qed simp_all

lemma ranked_map:
  "(\<And>x. x \<in> set xs \<Longrightarrow> ranked rank [g x] = ranked rank [x])
   \<Longrightarrow> ranked rank (map g xs) = ranked rank xs"
proof (induction xs)
  case Nil
  show ?case by simp
next
  case (Cons x xs)
  then show ?case
    using ranked_Cons [of rank "g x" "map g xs"] ranked_Cons [of rank x xs] by simp
qed

lemma check_icon_path_shape:
  "copy_ids [check_icon_path icon_paths n] = copy_ids [n]
   \<and> ranked rank [check_icon_path icon_paths n] = ranked rank [n]"
proof (cases n)
  case (Element t a ks)
  let ?g = "\<lambda>n. case n of Text d \<Rightarrow> Text (replace icon_paths d) | _ \<Rightarrow> n"
  have "copy_ids (map ?g ks) = copy_ids ks"
    by (rule copy_ids_map) (simp split: node.splits)
  moreover have "ranked rank (map ?g ks) = ranked rank ks"
    by (rule ranked_map) (simp split: node.splits)
  ultimately show ?thesis using Element by (simp add: check_icon_path_def)
qed (simp_all add: check_icon_path_def)

lemma fix_icon_shape:
  "copy_ids [fix_icon icon_paths n] = copy_ids [n]
   \<and> ranked rank [fix_icon icon_paths n] = ranked rank [n]"
  using check_icon_path_shape [of icon_paths n rank]
  by (cases n) (simp_all add: fix_icon_def)

lemma objects_n_icons_ranked:
  "get_node xml path = Some (Element t a ks) \<Longrightarrow> ranked rank [xml]
   \<Longrightarrow> \<forall>k\<in>copy_ids ks. rank k < b
   \<Longrightarrow> \<exists>ks'. objects_n_icons icon_paths xml path 0
            = Some (Inr (set_node xml path (Element t a ks')))
         \<and> ranked rank [set_node xml path (Element t a ks')]"
proof (induction b arbitrary: xml path t a ks rule: less_induct)
  case (less b)
  note outer = less.IH
  show ?case using less.prems
  proof (induction "nsizes ks" arbitrary: xml path t a ks rule: less_induct)
    case less
    note bound = less.prems(3)
    have loop: "\<exists>ks'. objects_n_icons icon_paths xml' path i
              = Some (Inr (set_node xml' path (Element t a ks')))
           \<and> ranked rank [set_node xml' path (Element t a ks')]"
      if "i \<le> length ks"
        and "get_node xml' path = Some (Element t a ksi)"
        and "length ksi = length ks"
        and "drop i ksi = drop i ks"
        and "ranked rank [xml']"
      for i xml' ksi
      using that
    proof (induction "length ks - i" arbitrary: i xml' ksi)
      case 0
      then have i: "length ksi \<le> i" by simp
      have "objects_n_icons icon_paths xml' path i = Some (Inr xml')"
        using objects_n_icons_end [OF "0.prems"(2) i] .
      moreover have "set_node xml' path (Element t a ksi) = xml'"
        using "0.prems"(2) by (rule set_node_same)
      ultimately have "objects_n_icons icon_paths xml' path i
              = Some (Inr (set_node xml' path (Element t a ksi)))
           \<and> ranked rank [set_node xml' path (Element t a ksi)]"
        using "0.prems"(5) by simp
      then show ?case by blast
    next
      case (Suc d)
      note g = Suc.prems(2) and len = Suc.prems(3) and dr = Suc.prems(4)
        and rk = Suc.prems(5)
      have lt: "i < length ks" using Suc.hyps(2) by simp
      have lti: "i < length ksi" using lt len by simp
      have nth: "ksi ! i = ks ! i" using dr lti len by (rule drop_nth_eq)
      have d: "d = length ks - Suc i" using Suc.hyps(2) by simp
      have le: "Suc i \<le> length ks" using lt by simp
      have gc: "get_node xml' (path @ [i]) = Some (ksi ! i)"
        using get_node_child [OF g lti] .
      have next_state: "\<exists>ks'. objects_n_icons icon_paths (set_node xml' (path @ [i]) m) path (Suc i)
              = Some (Inr (set_node xml' path (Element t a ks')))
           \<and> ranked rank [set_node xml' path (Element t a ks')]"
        if fl: "ranked rank [set_node xml' (path @ [i]) m]" for m
      proof -
        let ?x = "set_node xml' (path @ [i]) m"
        have x: "?x = set_node xml' path (Element t a (ksi[i := m]))"
          using set_node_child [OF g lti] .
        have g': "get_node ?x path = Some (Element t a (ksi[i := m]))"
          using x get_set_node [OF g] by simp
        have len': "length (ksi[i := m]) = length ks" using len by simp
        have dr': "drop (Suc i) (ksi[i := m]) = drop (Suc i) ks"
          using drop_Suc_eq [OF dr] by simp
        from Suc.hyps(1) [OF d le g' len' dr' fl] obtain ks' where
          "objects_n_icons icon_paths ?x path (Suc i)
              = Some (Inr (set_node ?x path (Element t a ks')))"
          "ranked rank [set_node ?x path (Element t a ks')]" by blast
        moreover have "set_node ?x path (Element t a ks') = set_node xml' path (Element t a ks')"
          using x by (simp add: set_set_node)
        ultimately show ?thesis by auto
      qed
      have stay: "\<exists>ks'. objects_n_icons icon_paths xml' path (Suc i)
              = Some (Inr (set_node xml' path (Element t a ks')))
           \<and> ranked rank [set_node xml' path (Element t a ks')]"
        using next_state [of "ksi ! i"] rk set_node_same [OF gc] by simp
      show ?case
      proof (cases "ks ! i")
        case (Text data)
        then have "objects_n_icons icon_paths xml' path i
                     = objects_n_icons icon_paths xml' path (Suc i)"
          using nth by (intro objects_n_icons_skip [OF g lti]) simp
        then show ?thesis using stay by simp
      next
        case (Comment data)
        then have "objects_n_icons icon_paths xml' path i
                     = objects_n_icons icon_paths xml' path (Suc i)"
          using nth by (intro objects_n_icons_skip [OF g lti]) simp
        then show ?thesis using stay by simp
      next
        case (Element ct ca cks)
        have c: "ksi ! i = Element ct ca cks" using nth Element by simp
        have gce: "get_node xml' (path @ [i]) = Some (Element ct ca cks)"
          using gc c by simp
        show ?thesis
        proof (cases "lower ct = ''copyobject''")
          case True
          note copy = True
          show ?thesis
          proof (cases "getAttribute ca ''id'' = []")
            case True
            have "objects_n_icons icon_paths xml' path i
                     = objects_n_icons icon_paths xml' path (Suc i)"
              using c copy True by (intro objects_n_icons_skip [OF g lti]) simp
            then show ?thesis using stay by simp
          next
            case False
            let ?k = "getAttribute ca ''id''"
            have "?k \<in> copy_ids ks" using lt Element copy False by (rule copy_ids_tag)
            then have kb: "rank ?k < b" using bound by blast
            have "search_for_id [xml'] ?k \<noteq> None"
              using search_for_id_found [of 0 "[xml']" "path @ [i]" ct ca cks] gce by simp
            then obtain obj where s: "search_for_id [xml'] ?k = Some obj" by auto
            from search_for_id_result [OF s] obtain q ot oa oks where
              go: "get_node xml' q = Some obj" and obj: "obj = Element ot oa oks"
              and oid: "getAttribute oa ''id'' = ?k"
              by auto
            have ro: "ranked rank [Element ot oa oks]"
              using rk go unfolding obj by (rule ranked_node)
            then have below: "\<forall>j\<in>copy_ids oks. rank j < rank ?k"
              using oid by simp
            have "\<forall>j\<in>copy_ids [Element ot oa oks]. rank j \<le> rank ?k"
              using below oid by (auto simp add: less_imp_le)
            moreover have "?k \<in> copy_ids [Element ct ca cks]" using copy False by simp
            ultimately have dom: "dominated rank (copy_ids [Element ot oa oks])
                (copy_ids [Element ct ca cks])"
              unfolding dominated_def by blast
            let ?x1 = "set_node xml' (path @ [i]) (Element ot oa oks)"
            have r1: "ranked rank [?x1]"
              using rk gce ro dom by (rule ranked_set_node)
            have g1: "get_node ?x1 (path @ [i]) = Some (Element ot oa oks)"
              using get_set_node [OF gce] .
            from outer [OF kb g1 r1 below] obtain oks' where
              rec: "objects_n_icons icon_paths ?x1 (path @ [i]) 0
                  = Some (Inr (set_node ?x1 (path @ [i]) (Element ot oa oks')))"
              and r2: "ranked rank [set_node ?x1 (path @ [i]) (Element ot oa oks')]"
              by blast
            let ?N = "Element ot oa oks'"
            have x2: "set_node ?x1 (path @ [i]) ?N = set_node xml' (path @ [i]) ?N"
              by (simp add: set_set_node)
            have step: "objects_n_icons icon_paths xml' path i
                    = objects_n_icons icon_paths (set_node xml' (path @ [i]) ?N) path (Suc i)"
              using objects_n_icons_copy [OF g lti c copy False s [unfolded obj] rec]
              unfolding x2 .
            have "ranked rank [set_node xml' (path @ [i]) ?N]" using r2 unfolding x2 .
            from next_state [OF this] step show ?thesis by simp
          qed
        next
          case False
          have small: "nsizes cks < nsizes ks" using lt Element by (rule nsizes_child_less)
          have "copy_ids cks \<subseteq> copy_ids ks" using lt Element by (rule copy_ids_child)
          then have cb: "\<forall>k\<in>copy_ids cks. rank k < b" using bound by blast
          from less.hyps [OF small gce rk cb] obtain cks' where
            rec: "objects_n_icons icon_paths xml' (path @ [i]) 0
                    = Some (Inr (set_node xml' (path @ [i]) (Element ct ca cks')))"
            and f1: "ranked rank [set_node xml' (path @ [i]) (Element ct ca cks')]"
            by blast
          let ?x1 = "set_node xml' (path @ [i]) (Element ct ca cks')"
          let ?new = "fix_icon icon_paths (Element ct ca cks')"
          have g1: "get_node ?x1 (path @ [i]) = Some (Element ct ca cks')"
            using get_set_node [OF gce] .
          have step: "objects_n_icons icon_paths xml' path i
                  = objects_n_icons icon_paths (set_node ?x1 (path @ [i]) ?new) path (Suc i)"
            by (rule objects_n_icons_descend [OF g lti c False rec g1])
          have fold: "ranked rank [Element ct ca cks']"
            using f1 g1 by (rule ranked_node)
          have fnew: "ranked rank [?new]"
            using fold fix_icon_shape [of icon_paths "Element ct ca cks'" rank] by simp
          have sub: "dominated rank (copy_ids [?new]) (copy_ids [Element ct ca cks'])"
            using fix_icon_shape [of icon_paths "Element ct ca cks'" rank]
            by (intro dominated_subset) simp
          have "ranked rank [set_node ?x1 (path @ [i]) ?new]"
            using f1 g1 fnew sub by (rule ranked_set_node)
          then have "ranked rank [set_node xml' (path @ [i]) ?new]"
            by (simp add: set_set_node)
          from next_state [OF this] step show ?thesis by (simp add: set_set_node)
        qed
      qed
    qed
    have "0 \<le> length ks" by simp
    from loop [OF this less.prems(1) refl refl less.prems(2)] show ?case .
  qed
qed

section \<open>A tag nested in a tag of the same id\<close>






section \<open>What every step of the first pass keeps\<close>


section \<open>Ids that no object carries\<close>















section \<open>Elements that no false condition encloses\<close>

lemma in_the_open_append:
  "in_the_open F n (xs @ ys) = (in_the_open F n xs \<or> in_the_open F n ys)"
  by (induction F n xs rule: in_the_open.induct) auto

lemma in_the_open_drop: "in_the_open F n (drop i xs) \<Longrightarrow> in_the_open F n xs"
proof -
  assume a: "in_the_open F n (drop i xs)"
  have "in_the_open F n (take i xs @ drop i xs)"
    using a by (simp only: in_the_open_append) simp
  then show ?thesis by simp
qed

lemma in_the_open_take: "in_the_open F n (take i xs) \<Longrightarrow> in_the_open F n xs"
proof -
  assume a: "in_the_open F n (take i xs)"
  have "in_the_open F n (take i xs @ drop i xs)"
    using a by (simp only: in_the_open_append) simp
  then show ?thesis by simp
qed

lemma in_the_open_drop_step:
  assumes "in_the_open F n (drop i ys)"
  shows "in_the_open F n (take (Suc i) ys) \<or> in_the_open F n (drop (Suc i) ys)"
proof -
  have "in_the_open F n ys" using assms by (rule in_the_open_drop)
  then have "in_the_open F n (take (Suc i) ys @ drop (Suc i) ys)" by simp
  then show ?thesis by (simp only: in_the_open_append)
qed

lemma getAttribute_removeAttribute:
  "getAttribute (removeAttribute attrs name) name = []"
proof -
  have "map_of (filter (\<lambda>kv. fst kv \<noteq> name) attrs) name = None"
    by (induction attrs) auto
  then show ?thesis
    by (simp add: getAttribute_def removeAttribute_def)
qed

lemma in_the_open_conditional:
  "\<not> passes F t a \<Longrightarrow> Element t a ks \<noteq> n
   \<Longrightarrow> in_the_open F n (Element t a ks # rest)
   \<Longrightarrow> in_the_open F n rest"
  by auto


lemma find_conditions_in_the_open:
  "unconditional tag attrs \<Longrightarrow> in_the_open conditions (Element tag attrs kids) (drop i children)
   \<Longrightarrow> in_the_open conditions (Element tag attrs kids) (find_conditions conditions children i)
       \<or> in_the_open conditions (Element tag attrs (find_conditions conditions kids 0))
            (find_conditions conditions children i)"
proof (induction conditions children i rule: find_conditions.induct)
  case (1 conditions children i)
  note un = "1.prems"(1) and here = "1.prems"(2)
  let ?tin = "Element tag attrs kids"
  let ?tout = "Element tag attrs (find_conditions conditions kids 0)"
  let ?goal = "\<lambda>res. in_the_open conditions ?tin res \<or> in_the_open conditions ?tout res"
  have finish: "?goal (find_conditions conditions ys (Suc i))"
    if ih: "in_the_open conditions ?tin (drop (Suc i) ys)
            \<Longrightarrow> ?goal (find_conditions conditions ys (Suc i))"
      and pre: "in_the_open conditions ?tin (drop (Suc i) ys) \<or> ?goal (take (Suc i) ys)" for ys
  proof (cases "in_the_open conditions ?tin (drop (Suc i) ys)")
    case True
    then show ?thesis by (rule ih)
  next
    case False
    then have g: "?goal (take (Suc i) ys)" using pre by blast
    have "take (Suc i) (find_conditions conditions ys (Suc i)) = take (Suc i) ys"
      by (rule take_find_conditions)
    then have "?goal (take (Suc i) (find_conditions conditions ys (Suc i)))"
      using g by simp
    then show ?thesis using in_the_open_take by blast
  qed
  show ?case
  proof (cases "i < length children")
    case False
    then show ?thesis using here by simp
  next
    case True
    note lt = True
    have dr: "drop i children = children ! i # drop (Suc i) children"
      using lt by (simp add: Cons_nth_drop_Suc)
    show ?thesis
    proof (cases "children ! i")
      case (Element t a ks)
      let ?ks' = "find_conditions conditions ks 0"
      let ?cs = "children[i := Element t a ?ks']"
      have sub: "in_the_open conditions ?tin ks \<Longrightarrow> ?goal ?ks'"
        using "1.IH"(1) [OF lt Element un] by simp
      have rest: "in_the_open conditions ?tin (drop (Suc i) children)"
        if np: "\<not> passes conditions t a"
      proof -
        have "Element t a ks \<noteq> ?tin"
          using np un by (auto simp add: passes_def unconditional_def)
        with np show ?thesis
          using here unfolding dr Element by (rule in_the_open_conditional)
      qed
      show ?thesis
      proof (cases "lower t = ''if''")
        case True
        have nu: "\<not> passes conditions t a" using True by (simp add: passes_def)
        let ?ys = "solve_if_element conditions ?cs i"
        have "i < length ?cs" "?cs ! i = Element t a ?ks'" using lt by simp_all
        from solve_if_element_shape [OF this, of conditions] obtain mv where
          ys: "?ys = take i children @ mv @ drop (Suc i) children"
          using lt by auto
        have "drop i ?ys = mv @ drop (Suc i) children"
          unfolding ys using lt by simp
        then have "in_the_open conditions ?tin (drop i ?ys)"
          using rest [OF nu] by (simp add: in_the_open_append)
        then have "in_the_open conditions ?tin (drop (Suc i) ?ys) \<or> ?goal (take (Suc i) ?ys)"
          using in_the_open_drop_step by blast
        then have pre: "in_the_open conditions ?tin (drop (Suc i) ?ys) \<or> ?goal (take (Suc i) ?ys)" .
        have ih: "in_the_open conditions ?tin (drop (Suc i) ?ys)
            \<Longrightarrow> ?goal (find_conditions conditions ?ys (Suc i))"
          using "1.IH"(2) [OF lt Element refl True un] by simp
        have "?goal (find_conditions conditions ?ys (Suc i))"
          by (rule finish [OF ih pre])
        then show ?thesis
          using lt Element True by (simp add: find_conditions.simps [of conditions children i] Let_def)
      next
        case False
        note notif = False
        show ?thesis
        proof (cases "getAttribute a ''if'' \<noteq> []")
          case True
          note hasattr = True
          show ?thesis
          proof (cases "condition_met conditions (getAttribute a ''if'')")
            case False
            have nu: "\<not> passes conditions t a"
              using hasattr False by (simp add: passes_def)
            let ?ys = "remove_nth i ?cs"
            have "?ys = take i children @ drop (Suc i) children"
              using lt by (simp add: remove_nth_def)
            then have "drop i ?ys = drop (Suc i) children" using lt by simp
            then have "in_the_open conditions ?tin (drop i ?ys)" using rest [OF nu] by simp
            then have "in_the_open conditions ?tin (drop (Suc i) ?ys) \<or> ?goal (take (Suc i) ?ys)"
              using in_the_open_drop_step by blast
            then have pre: "in_the_open conditions ?tin (drop (Suc i) ?ys) \<or> ?goal (take (Suc i) ?ys)" .
            have ih: "in_the_open conditions ?tin (drop (Suc i) ?ys)
                \<Longrightarrow> ?goal (find_conditions conditions ?ys (Suc i))"
              using "1.IH"(3) [OF lt Element refl notif hasattr False un] by simp
            have "?goal (find_conditions conditions ?ys (Suc i))"
              by (rule finish [OF ih pre])
            then show ?thesis
              using lt Element notif hasattr False
              by (simp add: find_conditions.simps [of conditions children i] Let_def)
          next
            case True
            let ?e = "Element t (removeAttribute a ''if'') ?ks'"
            let ?ys = "children[i := ?e]"
            have ne: "Element t a ks \<noteq> ?tin"
              using hasattr un by (auto simp add: unconditional_def)
            have pa: "passes conditions t (removeAttribute a ''if'')"
              using notif by (simp add: passes_def getAttribute_removeAttribute)
            have tk: "take (Suc i) ?ys = take i children @ [?e]"
              using lt by (simp add: take_Suc_conv_app_nth)
            have "drop (Suc i) ?ys = drop (Suc i) children" by simp
            moreover have "in_the_open conditions ?tin (drop (Suc i) children) \<or> ?goal [?e]"
              using here sub pa ne unfolding dr Element by auto
            ultimately have pre: "in_the_open conditions ?tin (drop (Suc i) ?ys)
                \<or> ?goal (take (Suc i) ?ys)"
              unfolding tk by (auto simp add: in_the_open_append)
            have ih: "in_the_open conditions ?tin (drop (Suc i) ?ys)
                \<Longrightarrow> ?goal (find_conditions conditions ?ys (Suc i))"
              using True "1.IH"(4) [OF lt Element refl notif hasattr _ un] by simp
            have "?goal (find_conditions conditions ?ys (Suc i))"
              by (rule finish [OF ih pre])
            then show ?thesis
              using lt Element notif hasattr True
              by (simp add: find_conditions.simps [of conditions children i] Let_def)
          qed
        next
          case False
          have u: "passes conditions t a" using notif False by (simp add: passes_def)
          have tk: "take (Suc i) ?cs = take i children @ [Element t a ?ks']"
            using lt by (simp add: take_Suc_conv_app_nth)
          have "drop (Suc i) ?cs = drop (Suc i) children" by simp
          moreover have "in_the_open conditions ?tin (drop (Suc i) children) \<or> ?goal [Element t a ?ks']"
            using here sub u unfolding dr Element by auto
          ultimately have "in_the_open conditions ?tin (drop (Suc i) ?cs) \<or> ?goal (take (Suc i) ?cs)"
            unfolding tk by (auto simp add: in_the_open_append)
          then have pre: "in_the_open conditions ?tin (drop (Suc i) ?cs) \<or> ?goal (take (Suc i) ?cs)" .
          have ih: "in_the_open conditions ?tin (drop (Suc i) ?cs)
              \<Longrightarrow> ?goal (find_conditions conditions ?cs (Suc i))"
            using False "1.IH"(5) [OF lt Element refl notif _ un] by simp
          have "?goal (find_conditions conditions ?cs (Suc i))"
            by (rule finish [OF ih pre])
          then show ?thesis
            using lt Element notif False
            by (simp add: find_conditions.simps [of conditions children i] Let_def)
        qed
      qed
    next
      case (Text d)
      have "in_the_open conditions ?tin (drop (Suc i) children)"
        using here unfolding dr Text by simp
      then have pre: "in_the_open conditions ?tin (drop (Suc i) children) \<or> ?goal (take (Suc i) children)"
        by simp
      have ih: "in_the_open conditions ?tin (drop (Suc i) children)
          \<Longrightarrow> ?goal (find_conditions conditions children (Suc i))"
        using "1.IH"(6) [OF lt Text un] by simp
      have "?goal (find_conditions conditions children (Suc i))"
        by (rule finish [OF ih pre])
      then show ?thesis
        using lt Text by (simp add: find_conditions.simps [of conditions children i])
    next
      case (Comment d)
      have "in_the_open conditions ?tin (drop (Suc i) children)"
        using here unfolding dr Comment by simp
      then have pre: "in_the_open conditions ?tin (drop (Suc i) children) \<or> ?goal (take (Suc i) children)"
        by simp
      have ih: "in_the_open conditions ?tin (drop (Suc i) children)
          \<Longrightarrow> ?goal (find_conditions conditions children (Suc i))"
        using "1.IH"(7) [OF lt Comment un] by simp
      have "?goal (find_conditions conditions children (Suc i))"
        by (rule finish [OF ih pre])
      then show ?thesis
        using lt Comment by (simp add: find_conditions.simps [of conditions children i])
    qed
  qed
qed

section \<open>Negation and disjunction in the condition language\<close>

text \<open>
  Claim C2, as stated: for every expression \<open>a\<close>, evaluating \<open>"!" + a\<close> gives the
  negation of evaluating \<open>a\<close>. The language has no grouping and \<open>|\<close> is split first, so
  \<open>"!x|y"\<close> is \<open>(not x) or y\<close>: with only \<open>y\<close> enabled both \<open>"!x|y"\<close> and \<open>"x|y"\<close> are
  true.
\<close>

theorem not_prefix_counterexample:
  "\<not> (\<forall>a conditions. condition_met conditions (''!'' @ a) = (\<not> condition_met conditions a))"
proof
  assume "\<forall>a conditions. condition_met conditions (''!'' @ a) = (\<not> condition_met conditions a)"
  then have "condition_met {''y''} (''!'' @ ''x|y'') = (\<not> condition_met {''y''} ''x|y'')"
    by blast
  moreover have "condition_met {''y''} (''!'' @ ''x|y'')" by code_simp
  moreover have "condition_met {''y''} ''x|y''" by code_simp
  ultimately show False by simp
qed

text \<open>
  Claim C2, amended: for every expression \<open>a\<close> that contains neither \<open>|\<close> nor \<open>&\<close>,
  and every flag set, evaluating \<open>"!" + a\<close> gives the negation of evaluating \<open>a\<close>.
\<close>

theorem not_prefix_simple:
  assumes "CHR ''|'' \<notin> set a" and "CHR ''&'' \<notin> set a"
  shows "condition_met conditions (''!'' @ a) = (\<not> condition_met conditions a)"
proof -
  have ns: "\<not> isspace CHR ''!''"
    by (simp add: isspace_def)
  have "condition_met conditions (''!'' @ a) = (\<not> condition_met conditions (rstrip a))"
    using assms ns
    by (subst condition_met.simps) (simp add: strip_Cons_nonspace startswith_def)
  then show ?thesis
    using condition_met_rstrip [OF assms] by simp
qed

theorem not_prefix_simple_witness:
  "CHR ''|'' \<notin> set '' x '' \<and> CHR ''&'' \<notin> set '' x ''
   \<and> condition_met {''x''} (''!'' @ '' x '') = False \<and> condition_met {''x''} '' x ''"
proof -
  have a: "CHR ''|'' \<notin> set '' x ''" and b: "CHR ''&'' \<notin> set '' x ''" by simp_all
  have c: "condition_met {''x''} '' x ''" by code_simp
  from not_prefix_simple [OF a b, of "{''x''}"] a b c show ?thesis by simp
qed

text \<open>
  Claim C3: for all expressions \<open>a\<close> and \<open>b\<close> and every flag set, \<open>a + "|" + b\<close>
  evaluates to the disjunction of the two, and when \<open>a\<close> evaluates to true \<open>b\<close> is not
  evaluated: the membership tests of the run are exactly those of the run on \<open>a\<close>
  (followed by those of the run on \<open>b\<close> when \<open>a\<close> is false).
\<close>

theorem or_split:
  "condition_met conditions (a @ ''|'' @ b)
     = (condition_met conditions a \<or> condition_met conditions b)
   \<and> snd (condition_met_trace conditions (a @ ''|'' @ b))
     = (if condition_met conditions a then snd (condition_met_trace conditions a)
        else snd (condition_met_trace conditions a) @ snd (condition_met_trace conditions b))"
proof (induction a rule: length_induct)
  case (1 a)
  let ?ab = "a @ ''|'' @ b"
  have bar: "CHR ''|'' \<in> set ?ab" by simp
  show ?case
  proof (cases "CHR ''|'' \<in> set a")
    case False
    have l: "split_left CHR ''|'' ?ab = a"
      using False split_left_append_notin [of "CHR ''|''" a b] by simp
    have r: "split_right CHR ''|'' ?ab = b"
      using False split_right_append_notin [of "CHR ''|''" a b] by simp
    have v: "condition_met conditions ?ab
               = (condition_met conditions a \<or> condition_met conditions b)"
      using bar l r by (subst condition_met.simps) simp
    obtain r1 t1 where ta: "condition_met_trace conditions a = (r1, t1)"
      by (cases "condition_met_trace conditions a")
    obtain r2 t2 where tb: "condition_met_trace conditions b = (r2, t2)"
      by (cases "condition_met_trace conditions b")
    have ra: "condition_met conditions a = r1"
      using fst_condition_met_trace [of conditions a] ta by simp
    have "snd (condition_met_trace conditions ?ab) = (if r1 then t1 else t1 @ t2)"
      using bar l r ta tb by (subst condition_met_trace.simps) simp
    then show ?thesis using v ra ta tb by simp
  next
    case True
    let ?a1 = "split_left CHR ''|'' a" and ?a2 = "split_right CHR ''|'' a"
    have l: "split_left CHR ''|'' ?ab = ?a1"
      using True by (rule split_left_append_in)
    have r: "split_right CHR ''|'' ?ab = ?a2 @ ''|'' @ b"
      using True by (rule split_right_append_in)
    have "length ?a2 < length a"
      using True by (rule split_right_shorter)
    with "1.IH" have ih:
      "condition_met conditions (?a2 @ ''|'' @ b)
         = (condition_met conditions ?a2 \<or> condition_met conditions b)"
      "snd (condition_met_trace conditions (?a2 @ ''|'' @ b))
         = (if condition_met conditions ?a2 then snd (condition_met_trace conditions ?a2)
            else snd (condition_met_trace conditions ?a2) @ snd (condition_met_trace conditions b))"
      by blast+
    have va: "condition_met conditions a
                = (condition_met conditions ?a1 \<or> condition_met conditions ?a2)"
      using True by (subst condition_met.simps) simp
    have v: "condition_met conditions ?ab
               = (condition_met conditions ?a1 \<or> condition_met conditions (?a2 @ ''|'' @ b))"
      using bar l r by (subst condition_met.simps) simp
    obtain r1 t1 where t1: "condition_met_trace conditions ?a1 = (r1, t1)"
      by (cases "condition_met_trace conditions ?a1")
    obtain r2 t2 where t2: "condition_met_trace conditions ?a2 = (r2, t2)"
      by (cases "condition_met_trace conditions ?a2")
    obtain r3 t3 where t3: "condition_met_trace conditions (?a2 @ ''|'' @ b) = (r3, t3)"
      by (cases "condition_met_trace conditions (?a2 @ ''|'' @ b)")
    have r1: "condition_met conditions ?a1 = r1"
      using fst_condition_met_trace [of conditions ?a1] t1 by simp
    have r2: "condition_met conditions ?a2 = r2"
      using fst_condition_met_trace [of conditions ?a2] t2 by simp
    have sa: "snd (condition_met_trace conditions a) = (if r1 then t1 else t1 @ t2)"
      using True t1 t2 by (subst condition_met_trace.simps) simp
    have sab: "snd (condition_met_trace conditions ?ab) = (if r1 then t1 else t1 @ t3)"
      using bar l r t1 t3 by (subst condition_met_trace.simps) simp
    have s3: "t3 = (if r2 then t2 else t2 @ snd (condition_met_trace conditions b))"
      using ih(2) t3 t2 r2 by simp
    show ?thesis
      using v va ih(1) r1 r2 sa sab s3 by auto
  qed
qed

theorem or_split_witness:
  "condition_met {''a''} (''a'' @ ''|'' @ ''zz'')
   \<and> snd (condition_met_trace {''a''} (''a'' @ ''|'' @ ''zz'')) = [''a'']"
proof -
  have a: "condition_met {''a''} ''a''" by code_simp
  have t: "snd (condition_met_trace {''a''} ''a'') = [''a'']" by code_simp
  from or_split [of "{''a''}" "''a''" "''zz''"] a t show ?thesis by simp
qed

section \<open>The condition evaluator on the empty expression\<close>

text \<open>
  Claim C1: for every flag set, an empty or all-whitespace condition expression evaluates
  to true. The code ends in the membership test of the stripped text, so with no flag
  enabled the empty expression and an expression of blanks both evaluate to false:
  \<open>condition_met\<close> yields true on them only when the empty string itself is a flag.
\<close>

theorem condition_met_empty_false:
  "condition_met {} [] = False \<and> condition_met {} ''  '' = False
   \<and> (condition_met conditions [] \<longleftrightarrow> [] \<in> conditions)"
  by (simp add: condition_met.simps strip_def lstrip_def rstrip_def startswith_def isspace_def)

section \<open>Letter case of flag names\<close>

text \<open>
  Claim C8: flag membership is case-insensitive, for a condition from the \<open>condition\<close>
  attribute of an \<open>if\<close> element as for one from an \<open>if\<close> attribute. The code stores
  the names as given and compares exactly: after \<open>enable_condition("Foo")\<close> the element
  \<open>if condition="Foo"\<close>, whose condition is lower-cased, loses its content, and after
  \<open>enable_condition("foo")\<close> an element with \<open>if="FOO"\<close> is removed.
\<close>

theorem flag_case_mismatch:
  "find_conditions (enable_condition {} [''Foo''])
      [Element ''if'' [(''condition'', ''Foo'')] [Element ''x'' [] []]] 0 = []
   \<and> find_conditions (enable_condition {} [''foo''])
      [Element ''button'' [(''if'', ''FOO'')] []] 0 = []"
  by code_simp

section \<open>Splicing adjacent element children\<close>

text \<open>
  Claim C4: \<open>merge_with_parent\<close> moves every element child of the wrapper, adjacent ones
  too, before the insertion point. On a wrapper with the two adjacent element children
  \<open>x\<close> and \<open>y\<close> the loop moves \<open>x\<close>, steps over \<open>y\<close> (the list it iterates has become
  shorter under it) and leaves \<open>y\<close> in the wrapper, which is then removed with it.
\<close>

theorem merge_with_parent_skips_adjacent:
  "merge_with_parent [Element ''x'' [] [], Element ''y'' [] []]
      [Element ''w'' [] [Element ''x'' [] [], Element ''y'' [] []]] 0
   = ([Element ''y'' [] []],
      [Element ''x'' [] [], Element ''w'' [] [Element ''x'' [] [], Element ''y'' [] []]],
      1)"
  by code_simp

text \<open>
  Claim C5: a true \<open>if\<close> element is replaced by its children other than \<open>else\<close>, a
  false one by the children of its \<open>else\<close> children. With two adjacent children only the
  first survives, in the then-branch and in the else-branch alike.
\<close>

theorem solve_if_element_loses_adjacent:
  "find_conditions {''a''}
      [Element ''if'' [(''condition'', ''a'')] [Element ''x'' [] [], Element ''y'' [] []]] 0
     = [Element ''x'' [] []]
   \<and> find_conditions {}
      [Element ''if'' [(''condition'', ''a'')]
         [Element ''else'' [] [Element ''x'' [] [], Element ''y'' [] []]]] 0
     = [Element ''x'' [] []]"
  by code_simp

section \<open>Elements with an empty if attribute\<close>

text \<open>
  Claim C10, as stated: an element whose \<open>if\<close> attribute is present but empty is kept by
  the conditional-expansion pass with its subtree untouched, for every flag set. The
  pass still works on the children of such an element, so a child with a false \<open>if\<close>
  attribute is removed from below it; the element goes with an enclosing element whose
  own condition is false; an \<open>if\<close> element is resolved whatever its \<open>if\<close> attribute
  says; and the second of two adjacent children of a true \<open>if\<close> element is lost.
\<close>

theorem empty_if_attribute_as_stated_fails:
  "build {} [] (Element ''r'' []
       [Element ''button'' [(''if'', [])] [Element ''x'' [(''if'', ''never'')] []]])
     = Some (Inr (Element ''r'' [] [Element ''button'' [(''if'', [])] []]))
   \<and> build {} [] (Element ''r'' []
       [Element ''box'' [(''if'', ''never'')] [Element ''button'' [(''if'', [])] []]])
     = Some (Inr (Element ''r'' [] []))
   \<and> build {} [] (Element ''r'' []
       [Element ''if'' [(''if'', []), (''condition'', ''never'')] [Element ''z'' [] []]])
     = Some (Inr (Element ''r'' [] []))
   \<and> build {''a''} [] (Element ''r'' []
       [Element ''if'' [(''condition'', ''a'')]
          [Element ''x'' [(''if'', [])] [], Element ''y'' [(''if'', [])] []]])
     = Some (Inr (Element ''r'' [] [Element ''x'' [(''if'', [])] []]))"
  by code_simp

text \<open>
  Claim C10, amended: take an element that is not an \<open>if\<close> element, whose \<open>if\<close>
  attribute is absent or empty, and that stands in the open in the document left by the
  first pass: every element around it, below the root, is no \<open>if\<close> element and has an
  \<open>if\<close> attribute that is absent, empty or true under the flags. Then the built
  document still holds the element in the open with its tag and all its attributes,
  the empty \<open>if\<close> attribute among them; its children are either as they were, or what
  the pass makes of them.
\<close>

theorem empty_if_attribute_kept:
  assumes "objects_n_icons icon_paths xml [] 0 = Some (Inr (Element t a ks))"
    and "lower tag \<noteq> ''if''" and "getAttribute attrs ''if'' = []"
    and "in_the_open conditions (Element tag attrs kids) ks"
  shows "build conditions icon_paths xml
           = Some (Inr (Element t a (find_conditions conditions ks 0)))
       \<and> (in_the_open conditions (Element tag attrs kids) (find_conditions conditions ks 0)
          \<or> in_the_open conditions (Element tag attrs (find_conditions conditions kids 0))
               (find_conditions conditions ks 0))"
proof -
  have "unconditional tag attrs" using assms(2,3) by (simp add: unconditional_def)
  moreover have "in_the_open conditions (Element tag attrs kids) (drop 0 ks)"
    using assms(4) by simp
  ultimately have
    "in_the_open conditions (Element tag attrs kids) (find_conditions conditions ks 0)
      \<or> in_the_open conditions (Element tag attrs (find_conditions conditions kids 0))
           (find_conditions conditions ks 0)"
    by (rule find_conditions_in_the_open)
  then show ?thesis using assms(1) by (simp add: build_def)
qed

theorem empty_if_attribute_kept_witness:
  "build {''a''} []
     (Element ''r'' []
        [Element ''box'' [(''if'', ''a'')]
           [Element ''button'' [(''if'', []), (''id'', ''ok'')] [Element ''x'' [(''if'', ''b'')] []]],
         Element ''drop'' [(''if'', ''b'')] []])
   = Some (Inr (Element ''r'' []
        [Element ''box'' [] [Element ''button'' [(''if'', []), (''id'', ''ok'')] []]]))
   \<and> (in_the_open {''a''}
        (Element ''button'' [(''if'', []), (''id'', ''ok'')] [Element ''x'' [(''if'', ''b'')] []])
        [Element ''box'' [] [Element ''button'' [(''if'', []), (''id'', ''ok'')] []]]
      \<or> in_the_open {''a''} (Element ''button'' [(''if'', []), (''id'', ''ok'')] [])
        [Element ''box'' [] [Element ''button'' [(''if'', []), (''id'', ''ok'')] []]])"
proof -
  let ?kids = "[Element ''x'' [(''if'', ''b'')] []]"
  let ?ks = "[Element ''box'' [(''if'', ''a'')]
           [Element ''button'' [(''if'', []), (''id'', ''ok'')] ?kids],
         Element ''drop'' [(''if'', ''b'')] []]"
  have h1: "objects_n_icons [] (Element ''r'' [] ?ks) [] 0 = Some (Inr (Element ''r'' [] ?ks))"
    by code_simp
  have h2: "lower ''button'' \<noteq> ''if''" by (simp add: lower_def)
  have h3: "getAttribute [(''if'', []), (''id'', ''ok'')] ''if'' = []"
    by (simp add: getAttribute_def)
  have h4: "in_the_open {''a''}
      (Element ''button'' [(''if'', []), (''id'', ''ok'')] ?kids) ?ks"
    by code_simp
  have v: "find_conditions {''a''} ?ks 0
    = [Element ''box'' [] [Element ''button'' [(''if'', []), (''id'', ''ok'')] []]]"
    by code_simp
  have w: "find_conditions {''a''} ?kids 0 = []"
    by code_simp
  from empty_if_attribute_kept [OF h1 h2 h3 h4] show ?thesis
    unfolding v w .
qed

section \<open>Templating constructs in the built document\<close>

text \<open>
  Claim C6: the built document holds no \<open>if\<close>, \<open>else\<close> or \<open>copyobject\<close> element and
  no element with a non-empty \<open>if\<close> attribute, also for consecutive sibling \<open>if\<close>
  elements and consecutive elements with an \<open>if\<close> attribute. With no flag enabled, the
  second of two consecutive \<open>if\<close> elements, and the second of two consecutive elements
  with an \<open>if\<close> attribute, is still in the built document.
\<close>

theorem build_skips_sibling_of_removed:
  "build {} [] (Element ''r'' []
       [Element ''if'' [(''condition'', ''x'')] [],
        Element ''if'' [(''condition'', ''y'')] [Element ''z'' [] []]])
     = Some (Inr (Element ''r'' []
         [Element ''if'' [(''condition'', ''y'')] [Element ''z'' [] []]]))
   \<and> \<not> no_templating (Element ''r'' []
         [Element ''if'' [(''condition'', ''y'')] [Element ''z'' [] []]])
   \<and> build {} [] (Element ''r'' []
       [Element ''a'' [(''if'', ''x'')] [], Element ''b'' [(''if'', ''y'')] []])
     = Some (Inr (Element ''r'' [] [Element ''b'' [(''if'', ''y'')] []]))
   \<and> \<not> no_templating (Element ''r'' [] [Element ''b'' [(''if'', ''y'')] []])"
  by code_simp

section \<open>Termination of the build\<close>

text \<open>
  Claim C9, as stated: every build call terminates, also when a \<open>copyobject\<close> tag
  names one of its own ancestors, at a cost bounded by the size of the document and a
  depth of recursion bounded by its depth. On the document \<open>a id="x"\<close> around
  \<open>copyobject id="x"\<close> the first pass copies the ancestor into itself, descends into
  the copy, finds the tag again one level deeper, and so on without end: the build
  returns nothing. And where the build does return, the first pass descends into every
  copy it has put in: on a document of 8 nodes and depth 3, in which \<open>a\<close> holds two
  copies of \<open>b\<close> and \<open>b\<close> two copies of \<open>c\<close>, it walks the 12 nodes of the result, 4
  deep.
\<close>

theorem copy_breaks_termination_and_bounds:
  "build {} [] (Element ''a'' [(''id'', ''x'')] [Element ''copyobject'' [(''id'', ''x'')] []])
     = None
   \<and> ranked (\<lambda>k. if k = ''c'' then 0 else if k = ''b'' then 1 else 2)
       [Element ''r'' []
          [Element ''object'' [(''id'', ''c'')] [],
           Element ''object'' [(''id'', ''b'')]
             [Element ''copyobject'' [(''id'', ''c'')] [],
              Element ''copyobject'' [(''id'', ''c'')] []],
           Element ''object'' [(''id'', ''a'')]
             [Element ''copyobject'' [(''id'', ''b'')] [],
              Element ''copyobject'' [(''id'', ''b'')] []]]]
   \<and> build {} []
       (Element ''r'' []
          [Element ''object'' [(''id'', ''c'')] [],
           Element ''object'' [(''id'', ''b'')]
             [Element ''copyobject'' [(''id'', ''c'')] [],
              Element ''copyobject'' [(''id'', ''c'')] []],
           Element ''object'' [(''id'', ''a'')]
             [Element ''copyobject'' [(''id'', ''b'')] [],
              Element ''copyobject'' [(''id'', ''b'')] []]])
     = Some (Inr
       (Element ''r'' []
          [Element ''object'' [(''id'', ''c'')] [],
           Element ''object'' [(''id'', ''b'')]
             [Element ''object'' [(''id'', ''c'')] [],
              Element ''object'' [(''id'', ''c'')] []],
           Element ''object'' [(''id'', ''a'')]
             [Element ''object'' [(''id'', ''b'')]
                [Element ''object'' [(''id'', ''c'')] [],
                 Element ''object'' [(''id'', ''c'')] []],
              Element ''object'' [(''id'', ''b'')]
                [Element ''object'' [(''id'', ''c'')] [],
                 Element ''object'' [(''id'', ''c'')] []]]]))
   \<and> nsizes
       [Element ''r'' []
          [Element ''object'' [(''id'', ''c'')] [],
           Element ''object'' [(''id'', ''b'')]
             [Element ''copyobject'' [(''id'', ''c'')] [],
              Element ''copyobject'' [(''id'', ''c'')] []],
           Element ''object'' [(''id'', ''a'')]
             [Element ''copyobject'' [(''id'', ''b'')] [],
              Element ''copyobject'' [(''id'', ''b'')] []]]] = 8
   \<and> nsizes
       [Element ''r'' []
          [Element ''object'' [(''id'', ''c'')] [],
           Element ''object'' [(''id'', ''b'')]
             [Element ''object'' [(''id'', ''c'')] [],
              Element ''object'' [(''id'', ''c'')] []],
           Element ''object'' [(''id'', ''a'')]
             [Element ''object'' [(''id'', ''b'')]
                [Element ''object'' [(''id'', ''c'')] [],
                 Element ''object'' [(''id'', ''c'')] []],
              Element ''object'' [(''id'', ''b'')]
                [Element ''object'' [(''id'', ''c'')] [],
                 Element ''object'' [(''id'', ''c'')] []]]]] = 12
   \<and> ndepths
       [Element ''r'' []
          [Element ''object'' [(''id'', ''c'')] [],
           Element ''object'' [(''id'', ''b'')]
             [Element ''copyobject'' [(''id'', ''c'')] [],
              Element ''copyobject'' [(''id'', ''c'')] []],
           Element ''object'' [(''id'', ''a'')]
             [Element ''copyobject'' [(''id'', ''b'')] [],
              Element ''copyobject'' [(''id'', ''b'')] []]]] = 3
   \<and> ndepths
       [Element ''r'' []
          [Element ''object'' [(''id'', ''c'')] [],
           Element ''object'' [(''id'', ''b'')]
             [Element ''object'' [(''id'', ''c'')] [],
              Element ''object'' [(''id'', ''c'')] []],
           Element ''object'' [(''id'', ''a'')]
             [Element ''object'' [(''id'', ''b'')]
                [Element ''object'' [(''id'', ''c'')] [],
                 Element ''object'' [(''id'', ''c'')] []],
              Element ''object'' [(''id'', ''b'')]
                [Element ''object'' [(''id'', ''c'')] [],
                 Element ''object'' [(''id'', ''c'')] []]]]] = 4"
proof (rule conjI)
  let ?doc = "Element ''a'' [(''id'', ''x'')] [Element ''copyobject'' [(''id'', ''x'')] []]"
  have doc: "?doc = nest 1" by simp
  have "objects_n_icons [] ?doc [] 0 = None"
  proof (cases "objects_n_icons [] ?doc [] 0")
    case None
    then show ?thesis .
  next
    case (Some y)
    from objects_n_icons_nest_diverges [OF Some]
    have "\<not> (\<exists>n k. k < n \<and> ?doc = nest n \<and> [] = replicate k (0::nat) \<and> (0::nat) = 0)" .
    moreover have "(0::nat) < 1 \<and> ?doc = nest 1 \<and> [] = replicate 0 (0::nat) \<and> (0::nat) = 0"
      using doc by simp
    ultimately show ?thesis by blast
  qed
  then show "build {} [] ?doc = None" by (simp add: build_def)
qed code_simp

text \<open>
  Claim C9, amended: every build call returns a document, for every flag set and every
  remap table, when the ids of the input can be ranked so that every \<open>copyobject\<close> tag
  with a non-empty id has a lower rank than each element that encloses it, the element
  ranked by its own id: no chain of references leads back into itself. No bound by the
  size or the depth of the input is stated: the first pass walks the copies too.
\<close>

theorem build_terminates_ranked:
  assumes "ranked rank [xml]"
  shows "\<exists>out. build conditions icon_paths xml = Some (Inr out)"
proof (cases xml)
  case (Element t a ks)
  have g: "get_node xml [] = Some (Element t a ks)" using Element by simp
  have b: "\<forall>k\<in>copy_ids ks. rank k < rank (getAttribute a ''id'')"
    using assms Element by simp
  from objects_n_icons_ranked [OF g assms b, of icon_paths] obtain ks' where
    "objects_n_icons icon_paths xml [] 0 = Some (Inr (Element t a ks'))"
    by auto
  then show ?thesis by (simp add: build_def)
next
  case (Text d)
  have "objects_n_icons icon_paths (Text d) [] 0 = Some (Inr (Text d))"
    by (subst objects_n_icons.simps) simp
  then show ?thesis using Text by (simp add: build_def)
next
  case (Comment d)
  have "objects_n_icons icon_paths (Comment d) [] 0 = Some (Inr (Comment d))"
    by (subst objects_n_icons.simps) simp
  then show ?thesis using Comment by (simp add: build_def)
qed

theorem build_terminates_ranked_witness:
  "\<exists>out. build {} []
     (Element ''r'' []
        [Element ''object'' [(''id'', ''b'')] [],
         Element ''object'' [(''id'', ''a'')] [Element ''copyobject'' [(''id'', ''b'')] []],
         Element ''copyobject'' [(''id'', ''a'')] []])
   = Some (Inr out)"
proof -
  have "ranked (\<lambda>k. if k = ''b'' then 0 else if k = ''a'' then 1 else 2)
     [Element ''r'' []
        [Element ''object'' [(''id'', ''b'')] [],
         Element ''object'' [(''id'', ''a'')] [Element ''copyobject'' [(''id'', ''b'')] []],
         Element ''copyobject'' [(''id'', ''a'')] []]]"
    by (simp add: lower_def lower_char_def getAttribute_def)
  then show ?thesis by (rule build_terminates_ranked)
qed

section \<open>A copyobject tag with an id that no object carries\<close>




end
